theory Spec2Isabelle
  imports Complex_Main "HOL-Library.Multiset" "HOL-Library.Word" "HOL-Library.Log_Nat"
begin

section \<open>Python values that the repair scripts handle\<close>

text \<open>
  The scripts are Python. An uncaught exception ends the call, so every function that can
  raise returns a sum: \<open>Inl\<close> carries the exception, \<open>Inr\<close> the result.
  Indices, counts and byte offsets are the non-negative integers that the document format
  prescribes for these fields, hence \<open>nat\<close>; an index may still lie outside the array
  it points into, and then the Python raises. Where a function recurses, the model takes
  the number of nested calls that the interpreter still accepts as a parameter, and the
  call that exceeds it raises \<open>RecursionError\<close>.
\<close>

datatype py_error = IndexError | KeyError | StructError | RecursionError | TypeError | OverflowError

text \<open>\<open>xs[i]\<close> on a list.\<close>

definition list_getitem :: "'a list \<Rightarrow> nat \<Rightarrow> py_error + 'a" where
  "list_getitem xs i = (if i < length xs then Inr (xs ! i) else Inl IndexError)"

text \<open>\<open>d[k]\<close> on a dict.\<close>

definition dict_getitem :: "('k \<rightharpoonup> 'v) \<Rightarrow> 'k \<Rightarrow> py_error + 'v" where
  "dict_getitem d k = (case d k of None \<Rightarrow> Inl KeyError | Some v \<Rightarrow> Inr v)"

text \<open>A loop or comprehension whose body may raise: the first exception ends it.\<close>

fun mapE :: "('a \<Rightarrow> py_error + 'b) \<Rightarrow> 'a list \<Rightarrow> py_error + 'b list" where
  "mapE f [] = Inr []"
| "mapE f (x # xs) =
     (case f x of
        Inl e \<Rightarrow> Inl e
      | Inr y \<Rightarrow> (case mapE f xs of Inl e \<Rightarrow> Inl e | Inr ys \<Rightarrow> Inr (y # ys)))"

text \<open>The same under \<open>if key in obj\<close>: an absent array is left absent.\<close>

definition mapE_opt :: "('a \<Rightarrow> py_error + 'b) \<Rightarrow> 'a list option \<Rightarrow> py_error + 'b list option" where
  "mapE_opt f xo =
     (case xo of
        None \<Rightarrow> Inr None
      | Some xs \<Rightarrow> (case mapE f xs of Inl e \<Rightarrow> Inl e | Inr ys \<Rightarrow> Inr (Some ys)))"

text \<open>\<open>xs.index(x)\<close>, used only where \<open>x in xs\<close> has been tested.\<close>

fun index_of :: "'a list \<Rightarrow> 'a \<Rightarrow> nat" where
  "index_of [] x = 0"
| "index_of (y # ys) x = (if x = y then 0 else Suc (index_of ys x))"

section \<open>The document, as \<open>fix_gltf_bone_order.py\<close> reads it\<close>

text \<open>
  A field that the JSON object may lack is an \<open>option\<close>. \<open>other_fields\<close> stands for all
  what a node carries besides its children (name, transform, mesh, ...); the script never
  looks at it. A channel's \<open>target_node\<close> is \<open>Some k\<close> when the channel has a target and
  the target has a node.
\<close>

record 'a node =
  children :: "nat list option"
  other_fields :: 'a

record scene =
  scene_nodes :: "nat list option"

record skin =
  skeleton :: "nat option"
  joints :: "nat list option"

record channel =
  target_node :: "nat option"

record animation =
  channels :: "channel list option"

record 'a gltf =
  nodes :: "'a node list option"
  scenes :: "scene list option"
  skins :: "skin list option"
  animations :: "animation list option"

text \<open>The state of a \<open>GLTFBoneFixer\<close>: the loaded document and the flag \<open>reordered\<close>.\<close>

record 'a bone_fixer =
  gltf_data :: "'a gltf"
  reordered :: bool

section \<open>Depth-first traversal\<close>

text \<open>
  Both sorts build a dict from an index to its list of children and traverse it with the
  nested function \<open>dfs\<close>, which updates the set \<open>visited\<close> and the list of sorted indices.
  The dict is a list of lists here; \<open>adj g x\<close> is \<open>children.get(x, [])\<close>.
\<close>

definition adj :: "nat list list \<Rightarrow> nat \<Rightarrow> nat list" where
  "adj g x = (if x < length g then g ! x else [])"

text \<open>
  \<open>dfs\<close> calls itself once for every child of the node it enters, so the depth of the
  calls is the length of the path from the root. \<open>dfs allow g x\<close> is the call \<open>dfs(x)\<close>
  when the interpreter accepts \<open>allow\<close> more nested calls of \<open>dfs\<close> (its recursion limit
  less the frames in use): with none left the call raises, also when \<open>x\<close> has been
  visited. \<open>dfs_children allow g cs\<close> is the loop \<open>for child_idx in cs: dfs(child_idx)\<close>,
  and \<open>for root_idx in roots: dfs(root_idx)\<close> is \<open>dfs_children allow g roots\<close>.
\<close>

function dfs :: "nat \<Rightarrow> nat list list \<Rightarrow> nat \<Rightarrow> nat set \<times> nat list
    \<Rightarrow> py_error + nat set \<times> nat list"
  and dfs_children :: "nat \<Rightarrow> nat list list \<Rightarrow> nat list \<Rightarrow> nat set \<times> nat list
    \<Rightarrow> py_error + nat set \<times> nat list" where
  "dfs 0 g x st = Inl RecursionError"
| "dfs (Suc allow) g x (visited, sorted_indices) =
     (if x \<in> visited then Inr (visited, sorted_indices)
      else dfs_children allow g (adj g x) (insert x visited, sorted_indices @ [x]))"
| "dfs_children allow g [] st = Inr st"
| "dfs_children allow g (c # cs) st =
     (case dfs allow g c st of Inl e \<Rightarrow> Inl e | Inr st' \<Rightarrow> dfs_children allow g cs st')"
  by pat_completeness auto

termination dfs
  by (relation "inv_image (less_than <*lex*> less_than)
        (\<lambda>v. case v of Inl (allow, g, x, st) \<Rightarrow> (allow, 0)
                        | Inr (allow, g, cs, st) \<Rightarrow> (allow, Suc (length cs)))") auto

section \<open>The node-order pass\<close>

text \<open>\<open>node_children\<close>: node \<open>i\<close> maps to its \<open>children\<close>, or to \<open>[]\<close> when it has none.\<close>

definition node_graph :: "('a, 'b) node_scheme list \<Rightarrow> nat list list" where
  "node_graph ns = map (\<lambda>nd. case children nd of None \<Rightarrow> [] | Some cs \<Rightarrow> cs) ns"

text \<open>
  \<open>node_parent\<close> is only asked whether it has a key; its keys are all the indices that
  occur in a children list. The roots are the indices that are not such a key.
\<close>

definition root_nodes :: "nat list list \<Rightarrow> nat list" where
  "root_nodes g = filter (\<lambda>i. i \<notin> set (concat g)) [0..<length g]"

text \<open>\<open>index_mapping[old_idx] = new_idx\<close> for each position of the sorted list.\<close>

definition index_mapping_of :: "nat list \<Rightarrow> (nat \<rightharpoonup> nat)" where
  "index_mapping_of sorted_indices =
     fold (\<lambda>(new_idx, old_idx) m. m(old_idx \<mapsto> new_idx)) (enumerate 0 sorted_indices) Map.empty"

definition topological_sort_nodes ::
    "nat \<Rightarrow> ('a, 'b) node_scheme list \<Rightarrow> py_error + nat list \<times> (nat \<rightharpoonup> nat)" where
  "topological_sort_nodes allow ns =
     (let g = node_graph ns in
      case dfs_children allow g (root_nodes g) ({}, []) of
        Inl e \<Rightarrow> Inl e
      | Inr (visited, reached) \<Rightarrow>
          let sorted_indices = reached @ filter (\<lambda>i. i \<notin> visited) [0..<length ns]
          in Inr (sorted_indices, index_mapping_of sorted_indices))"

text \<open>The test that starts \<open>fix_node_hierarchy\<close>: some node has a child with a lower index.\<close>

definition needs_reorder_nodes :: "('a, 'b) node_scheme list \<Rightarrow> bool" where
  "needs_reorder_nodes ns =
     list_ex (\<lambda>(i, nd). case children nd of None \<Rightarrow> False | Some cs \<Rightarrow> list_ex (\<lambda>c. c < i) cs)
       (enumerate 0 ns)"

definition remap_list :: "(nat \<rightharpoonup> nat) \<Rightarrow> nat list \<Rightarrow> py_error + nat list" where
  "remap_list m xs = mapE (dict_getitem m) xs"

definition remap_node :: "(nat \<rightharpoonup> nat) \<Rightarrow> 'a node \<Rightarrow> py_error + 'a node" where
  "remap_node m nd =
     (case children nd of
        None \<Rightarrow> Inr nd
      | Some cs \<Rightarrow>
          (case remap_list m cs of Inl e \<Rightarrow> Inl e | Inr cs' \<Rightarrow> Inr (nd\<lparr>children := Some cs'\<rparr>)))"

definition remap_scene :: "(nat \<rightharpoonup> nat) \<Rightarrow> scene \<Rightarrow> py_error + scene" where
  "remap_scene m sc =
     (case scene_nodes sc of
        None \<Rightarrow> Inr sc
      | Some rs \<Rightarrow>
          (case remap_list m rs of Inl e \<Rightarrow> Inl e | Inr rs' \<Rightarrow> Inr (sc\<lparr>scene_nodes := Some rs'\<rparr>)))"

definition remap_skin :: "(nat \<rightharpoonup> nat) \<Rightarrow> skin \<Rightarrow> py_error + skin" where
  "remap_skin m sk =
     (case (case skeleton sk of
              None \<Rightarrow> Inr sk
            | Some r \<Rightarrow>
                (case dict_getitem m r of Inl e \<Rightarrow> Inl e | Inr r' \<Rightarrow> Inr (sk\<lparr>skeleton := Some r'\<rparr>)))
      of Inl e \<Rightarrow> Inl e
       | Inr sk1 \<Rightarrow>
          (case joints sk1 of
             None \<Rightarrow> Inr sk1
           | Some js \<Rightarrow>
               (case remap_list m js of Inl e \<Rightarrow> Inl e | Inr js' \<Rightarrow> Inr (sk1\<lparr>joints := Some js'\<rparr>))))"

definition remap_channel :: "(nat \<rightharpoonup> nat) \<Rightarrow> channel \<Rightarrow> py_error + channel" where
  "remap_channel m ch =
     (case target_node ch of
        None \<Rightarrow> Inr ch
      | Some k \<Rightarrow>
          (case dict_getitem m k of Inl e \<Rightarrow> Inl e | Inr k' \<Rightarrow> Inr (ch\<lparr>target_node := Some k'\<rparr>)))"

definition remap_animation :: "(nat \<rightharpoonup> nat) \<Rightarrow> animation \<Rightarrow> py_error + animation" where
  "remap_animation m an =
     (case mapE_opt (remap_channel m) (channels an) of
        Inl e \<Rightarrow> Inl e
      | Inr cs \<Rightarrow> Inr (an\<lparr>channels := cs\<rparr>))"

definition fix_node_hierarchy :: "nat \<Rightarrow> 'a bone_fixer \<Rightarrow> py_error + 'a bone_fixer" where
  "fix_node_hierarchy allow s =
     (case nodes (gltf_data s) of
        None \<Rightarrow> Inr s
      | Some ns \<Rightarrow>
          if \<not> needs_reorder_nodes ns then Inr s
          else
            (case topological_sort_nodes allow ns of Inl e \<Rightarrow> Inl e | Inr (sorted_indices, index_mapping) \<Rightarrow>
             case mapE (list_getitem ns) sorted_indices of Inl e \<Rightarrow> Inl e | Inr new_nodes \<Rightarrow>
             case mapE (remap_node index_mapping) new_nodes of Inl e \<Rightarrow> Inl e | Inr new_nodes' \<Rightarrow>
             case mapE_opt (remap_scene index_mapping) (scenes (gltf_data s)) of Inl e \<Rightarrow> Inl e | Inr scs \<Rightarrow>
             case mapE_opt (remap_skin index_mapping) (skins (gltf_data s)) of Inl e \<Rightarrow> Inl e | Inr sks \<Rightarrow>
             case mapE_opt (remap_animation index_mapping) (animations (gltf_data s)) of Inl e \<Rightarrow> Inl e | Inr ans \<Rightarrow>
               Inr (s\<lparr>gltf_data := \<lparr>nodes = Some new_nodes', scenes = scs, skins = sks, animations = ans\<rparr>,
                      reordered := True\<rparr>)))"

section \<open>The joint-order pass\<close>

text \<open>
  \<open>joint_children\<close>: a joint maps to those of its node's children that are joints of the
  same skin; \<open>joint_parent\<close> has these children as keys.
\<close>

definition joint_children_of :: "nat list \<Rightarrow> ('a, 'b) node_scheme list \<Rightarrow> nat \<Rightarrow> nat list" where
  "joint_children_of js ns j =
     filter (\<lambda>c. c \<in> set js) (case children (ns ! j) of None \<Rightarrow> [] | Some cs \<Rightarrow> cs)"

definition joint_graph :: "nat list \<Rightarrow> ('a, 'b) node_scheme list \<Rightarrow> nat list list" where
  "joint_graph js ns =
     map (\<lambda>j. if j \<in> set js then joint_children_of js ns j else []) [0..<length ns]"

definition topological_sort_joints ::
    "nat \<Rightarrow> nat list \<Rightarrow> ('a, 'b) node_scheme list \<Rightarrow> py_error + nat list" where
  "topological_sort_joints allow js ns =
     (if list_ex (\<lambda>j. length ns \<le> j) js then Inl IndexError
      else
        let g = joint_graph js ns;
            root_joints = filter (\<lambda>j. j \<notin> set (concat g)) js
        in case dfs_children allow g root_joints ({}, []) of
             Inl e \<Rightarrow> Inl e
           | Inr (visited, reached) \<Rightarrow> Inr (reached @ filter (\<lambda>j. j \<notin> visited) js))"

text \<open>The test in \<open>fix_bone_order\<close>: a joint has a child that stands at an earlier position.\<close>

definition joint_misplaced :: "nat list \<Rightarrow> ('a, 'b) node_scheme list \<Rightarrow> nat \<times> nat \<Rightarrow> py_error + bool" where
  "joint_misplaced js ns = (\<lambda>(i, j).
     case list_getitem ns j of
       Inl e \<Rightarrow> Inl e
     | Inr nd \<Rightarrow>
         Inr (case children nd of
                None \<Rightarrow> False
              | Some cs \<Rightarrow> list_ex (\<lambda>c. c \<in> set js \<and> index_of js c < i) cs))"

definition needs_reorder_joints :: "nat list \<Rightarrow> ('a, 'b) node_scheme list \<Rightarrow> py_error + bool" where
  "needs_reorder_joints js ns =
     (case mapE (joint_misplaced js ns) (enumerate 0 js) of
        Inl e \<Rightarrow> Inl e
      | Inr bs \<Rightarrow> Inr (list_ex (\<lambda>b. b) bs))"

text \<open>One round of the loop over the skins; the flag says whether the skin was reordered.\<close>

definition fix_skin ::
    "nat \<Rightarrow> ('a, 'b) node_scheme list \<Rightarrow> skin \<Rightarrow> py_error + skin \<times> bool" where
  "fix_skin allow ns sk =
     (let js = (case joints sk of None \<Rightarrow> [] | Some js \<Rightarrow> js) in
      if js = [] then Inr (sk, False)
      else
        (case needs_reorder_joints js ns of
           Inl e \<Rightarrow> Inl e
         | Inr False \<Rightarrow> Inr (sk, False)
         | Inr True \<Rightarrow>
             (case topological_sort_joints allow js ns of
                Inl e \<Rightarrow> Inl e
              | Inr sorted_joint_indices \<Rightarrow> Inr (sk\<lparr>joints := Some sorted_joint_indices\<rparr>, True))))"

definition fix_bone_order :: "nat \<Rightarrow> 'a bone_fixer \<Rightarrow> py_error + 'a bone_fixer" where
  "fix_bone_order allow s =
     (case skins (gltf_data s) of
        None \<Rightarrow> Inr s
      | Some sks \<Rightarrow>
          (case nodes (gltf_data s) of
             None \<Rightarrow> Inr s
           | Some ns \<Rightarrow>
               (case mapE (fix_skin allow ns) sks of
                  Inl e \<Rightarrow> Inl e
                | Inr rs \<Rightarrow>
                    Inr (s\<lparr>gltf_data := (gltf_data s)\<lparr>skins := Some (map fst rs)\<rparr>,
                           reordered := (reordered s \<or> list_ex snd rs)\<rparr>))))"

text \<open>
  The method \<open>fix\<close> between loading and saving: the node-order pass, then the joint-order
  pass (\<open>fix\<close> is a keyword here, hence the longer name). Both sorts are called at the
  same depth below \<open>fix\<close>, so both have the same number of nested calls left.
\<close>

definition fix_passes :: "nat \<Rightarrow> 'a bone_fixer \<Rightarrow> py_error + 'a bone_fixer" where
  "fix_passes allow s =
     (case fix_node_hierarchy allow s of Inl e \<Rightarrow> Inl e | Inr s' \<Rightarrow> fix_bone_order allow s')"

section \<open>The traversal without the call stack\<close>

text \<open>
  What the traversal computes when no call is refused, used to state and prove what
  \<open>dfs\<close> returns. The calls that are still to be made are kept in a list: the head is the
  call being executed, and a node that is entered puts the calls for its children in front
  of the calls its callers have left.
\<close>

function traverse :: "nat list list \<Rightarrow> nat list \<Rightarrow> nat set \<times> nat list \<Rightarrow> nat set \<times> nat list" where
  "traverse g [] st = st"
| "traverse g (x # pending) (visited, sorted_indices) =
     (if x \<in> visited then traverse g pending (visited, sorted_indices)
      else traverse g (adj g x @ pending) (insert x visited, sorted_indices @ [x]))"
  by pat_completeness auto

lemma adj_subset: "set (adj g x) \<subseteq> set (concat g)"
proof (cases "x < length g")
  case True
  then have "g ! x \<in> set g" by simp
  then have "set (g ! x) \<subseteq> set (concat g)" by auto
  then show ?thesis using True by (simp add: adj_def)
next
  case False
  then show ?thesis by (simp add: adj_def)
qed

termination traverse
proof (relation "inv_image (less_than <*lex*> less_than)
          (\<lambda>(g, stack, vis, out). (card ((set stack \<union> set (concat g)) - vis), length stack))")
  show "wf (inv_image (less_than <*lex*> less_than)
          (\<lambda>(g, stack, vis, out). (card ((set stack \<union> set (concat g)) - vis), length stack)))"
    by (intro wf_inv_image wf_lex_prod wf_less_than)
next
  fix g :: "nat list list" and x :: nat and pending :: "nat list"
    and vis :: "nat set" and out :: "nat list"
  assume "x \<in> vis"
  have "card ((set pending \<union> set (concat g)) - vis)
      \<le> card ((set (x # pending) \<union> set (concat g)) - vis)"
    by (rule card_mono) auto
  then show "((g, pending, vis, out), (g, x # pending, vis, out))
      \<in> inv_image (less_than <*lex*> less_than)
          (\<lambda>(g, stack, vis, out). (card ((set stack \<union> set (concat g)) - vis), length stack))"
    by auto
next
  fix g :: "nat list list" and x :: nat and pending :: "nat list"
    and vis :: "nat set" and out :: "nat list"
  assume x: "x \<notin> vis"
  have "(set (adj g x @ pending) \<union> set (concat g)) - insert x vis
      \<subset> (set (x # pending) \<union> set (concat g)) - vis"
    using x adj_subset[of g x] by auto
  then have "card ((set (adj g x @ pending) \<union> set (concat g)) - insert x vis)
      < card ((set (x # pending) \<union> set (concat g)) - vis)"
    by (intro psubset_card_mono) auto
  then show "((g, adj g x @ pending, insert x vis, out @ [x]), (g, x # pending, vis, out))
      \<in> inv_image (less_than <*lex*> less_than)
          (\<lambda>(g, stack, vis, out). (card ((set stack \<union> set (concat g)) - vis), length stack))"
    by auto
qed

section \<open>Numbers and bytes, as \<open>fix_daybreak_gltf.py\<close> handles them\<close>

text \<open>
  A number of the document and an unpacked float are Python numbers: a rational, one of
  the infinities, or NaN. Arithmetic on them is exact here: the rounding to binary64 of
  \<open>1.0 / 30.0\<close>, of \<open>i * frame_time\<close> and of the literal \<open>1e100\<close> is not modelled. The
  rounding to binary32 that \<open>struct\<close> does when it packs a float is.
\<close>

datatype pyfloat = Fin rat | PInf | NInf | NaN

text \<open>\<open>a < b\<close>; every comparison with NaN is false. \<open>a > b\<close> is \<open>b < a\<close>.\<close>

fun fless :: "pyfloat \<Rightarrow> pyfloat \<Rightarrow> bool" where
  "fless (Fin a) (Fin b) = (a < b)"
| "fless (Fin a) PInf = True"
| "fless NInf (Fin b) = True"
| "fless NInf PInf = True"
| "fless _ _ = False"

fun fabs :: "pyfloat \<Rightarrow> pyfloat" where
  "fabs (Fin a) = Fin \<bar>a\<bar>"
| "fabs PInf = PInf"
| "fabs NInf = PInf"
| "fabs NaN = NaN"

definition isinf :: "pyfloat \<Rightarrow> bool" where
  "isinf v \<longleftrightarrow> v = PInf \<or> v = NInf"

definition isnan :: "pyfloat \<Rightarrow> bool" where
  "isnan v \<longleftrightarrow> v = NaN"

text \<open>
  The builtins \<open>min\<close> and \<open>max\<close> on a list that is not empty: the first element is kept
  until a later one is smaller (greater).
\<close>

definition py_min :: "pyfloat list \<Rightarrow> pyfloat" where
  "py_min xs = fold (\<lambda>x m. if fless x m then x else m) (tl xs) (hd xs)"

definition py_max :: "pyfloat list \<Rightarrow> pyfloat" where
  "py_max xs = fold (\<lambda>x m. if fless m x then x else m) (tl xs) (hd xs)"

text \<open>
  The buffer is a \<open>bytearray\<close>. \<open>struct\<close> with the format \<open><f\<close> reads and writes four
  bytes, little-endian, as an IEEE 754 binary32 number.
\<close>

type_synonym byte = "8 word"

definition pow2 :: "int \<Rightarrow> rat" where
  "pow2 e = (if 0 \<le> e then 2 ^ nat e else 1 / 2 ^ nat (- e))"

definition le_bytes_to_int :: "byte list \<Rightarrow> int" where
  "le_bytes_to_int bs = foldr (\<lambda>b n. uint b + 256 * n) bs 0"

definition int_to_le_bytes :: "nat \<Rightarrow> int \<Rightarrow> byte list" where
  "int_to_le_bytes k w = map (\<lambda>i. of_int (w div 256 ^ i)) [0..<k]"

definition f32_of_bits :: "int \<Rightarrow> pyfloat" where
  "f32_of_bits w =
     (let s = w div 2 ^ 31 mod 2; e = w div 2 ^ 23 mod 256; m = w mod 2 ^ 23;
          sign = (if s = 0 then 1 else - 1)
      in if e = 255 then (if m = 0 then (if s = 0 then PInf else NInf) else NaN)
         else if e = 0 then Fin (sign * of_int m * pow2 (- 149))
         else Fin (sign * of_int (2 ^ 23 + m) * pow2 (e - 150)))"

definition round_half_even :: "rat \<Rightarrow> int" where
  "round_half_even x =
     (let f = \<lfloor>x\<rfloor>; r = x - of_int f
      in if r < 1 / 2 then f else if 1 / 2 < r then f + 1 else if even f then f else f + 1)"

text \<open>\<open>ilog2 x\<close> is the \<open>e\<close> with \<open>2 ^ e \<le> x < 2 ^ (e + 1)\<close>, for a positive \<open>x\<close>.\<close>

definition ilog2 :: "rat \<Rightarrow> int" where
  "ilog2 x = (let (a, b) = quotient_of x; d = bitlen a - bitlen b
              in if pow2 d \<le> x then d else d - 1)"

text \<open>
  The bits of the binary32 nearest to \<open>x\<close> (ties to even), for \<open>x\<close> below the overflow
  threshold: sign, then exponent and fraction, which are one sum because a fraction
  rounded up to \<open>2 ^ 24\<close> carries into the exponent.
\<close>

definition f32_bits_of :: "rat \<Rightarrow> int" where
  "f32_bits_of x =
     (let a = \<bar>x\<bar>; e = (if a = 0 then - 126 else max (- 126) (ilog2 a));
          n = round_half_even (a / pow2 (e - 23))
      in (if x < 0 then 2 ^ 31 else 0) + (e + 126) * 2 ^ 23 + n)"

text \<open>
  \<open>struct.pack('<f', v)\<close>: a finite value that rounds to an infinity raises
  \<open>OverflowError\<close>.
\<close>

definition pack_f :: "pyfloat \<Rightarrow> py_error + byte list" where
  "pack_f v =
     (case v of
        Fin x \<Rightarrow> if (2 - 1 / 2 ^ 24) * 2 ^ 127 \<le> \<bar>x\<bar> then Inl OverflowError
                 else Inr (int_to_le_bytes 4 (f32_bits_of x))
      | PInf \<Rightarrow> Inr [0, 0, 0x80, 0x7F]
      | NInf \<Rightarrow> Inr [0, 0, 0x80, 0xFF]
      | NaN \<Rightarrow> Inr [0, 0, 0xC0, 0x7F])"

text \<open>\<open>struct.unpack_from('<f', buf, offset)[0]\<close>, called only where \<open>offset + 4 <= len(buf)\<close>.\<close>

definition unpack_from_f :: "byte list \<Rightarrow> nat \<Rightarrow> pyfloat" where
  "unpack_from_f buf offset = f32_of_bits (le_bytes_to_int (take 4 (drop offset buf)))"

text \<open>
  \<open>struct.pack_into('<f', buf, offset, v)\<close>: the bounds are checked first, and a buffer
  that is too short raises \<open>struct.error\<close>; the buffer keeps its length.
\<close>

definition pack_into_f :: "byte list \<Rightarrow> nat \<Rightarrow> pyfloat \<Rightarrow> py_error + byte list" where
  "pack_into_f buf offset v =
     (if length buf < offset + 4 then Inl StructError
      else case pack_f v of
             Inl e \<Rightarrow> Inl e
           | Inr bs \<Rightarrow> Inr (take offset buf @ bs @ drop (offset + 4) buf))"

section \<open>The document, as \<open>fix_daybreak_gltf.py\<close> reads it\<close>

text \<open>
  Only the keys that the script reads. \<open>min\<close>, \<open>max\<close>, \<open>count\<close>, \<open>type\<close> and
  \<open>byteOffset\<close> carry a prefix because the plain names are taken.
\<close>

record accessor =
  acc_min :: "pyfloat list option"
  acc_max :: "pyfloat list option"
  bufferView :: "nat option"
  acc_byteOffset :: "nat option"
  acc_count :: "nat option"
  componentType :: "nat option"
  acc_type :: "string option"

record buffer_view =
  bv_byteOffset :: "nat option"
  bv_buffer :: "nat option"
  byteStride :: "nat option"

record buffer =
  uri :: "string option"

record sampler =
  input :: "nat option"

record sampled_animation =
  samplers :: "sampler list option"

record document =
  doc_animations :: "sampled_animation list option"
  accessors :: "accessor list option"
  bufferViews :: "buffer_view list option"
  buffers :: "buffer list option"
  has_scenes :: bool
  has_nodes :: bool

text \<open>What the two lists of the fixer hold; the script formats each entry as a string.\<close>

datatype fix_note =
    Regenerated nat nat nat
  | Fixed_timing nat nat pyfloat pyfloat pyfloat pyfloat
  | Fixed_bounds nat "pyfloat list" "pyfloat list"

datatype issue =
    Extreme_values nat "string option" "pyfloat list" "pyfloat list"
  | Missing_field string
  | Invalid_bufferView nat nat
  | Invalid_buffer nat nat

text \<open>
  The attributes of \<open>DaybreakGLTFFixer\<close> after \<open>load\<close>; \<open>bin_data\<close> is \<open>None\<close> when the
  document names no buffer file.
\<close>

record daybreak_fixer =
  doc :: document
  bin_data :: "byte list option"
  fixes_applied :: "fix_note list"
  issues_found :: "issue list"

text \<open>\<open>d.get(key, [])\<close> and \<open>d.get(key, 0)\<close>.\<close>

definition get_list :: "'a list option \<Rightarrow> 'a list" where
  "get_list xo = (case xo of None \<Rightarrow> [] | Some xs \<Rightarrow> xs)"

definition get_nat :: "nat option \<Rightarrow> nat" where
  "get_nat xo = (case xo of None \<Rightarrow> 0 | Some n \<Rightarrow> n)"

text \<open>A loop whose body may raise, over a state.\<close>

fun foldE :: "('a \<Rightarrow> 's \<Rightarrow> py_error + 's) \<Rightarrow> 'a list \<Rightarrow> 's \<Rightarrow> py_error + 's" where
  "foldE f [] s = Inr s"
| "foldE f (x # xs) s = (case f x s of Inl e \<Rightarrow> Inl e | Inr s' \<Rightarrow> foldE f xs s')"

section \<open>Animation timing\<close>

text \<open>\<open>accessor.get('min', [0])[0]\<close>.\<close>

definition first_or_zero :: "pyfloat list option \<Rightarrow> py_error + pyfloat" where
  "first_or_zero vo = (case vo of None \<Rightarrow> Inr (Fin 0) | Some vs \<Rightarrow> list_getitem vs 0)"

definition is_corrupted :: "pyfloat \<Rightarrow> pyfloat \<Rightarrow> bool" where
  "is_corrupted min_val max_val \<longleftrightarrow>
     fless (Fin (10 ^ 100)) (fabs min_val) \<or> fless (Fin (10 ^ 100)) (fabs max_val)
     \<or> isinf min_val \<or> isinf max_val \<or> isnan min_val \<or> isnan max_val
     \<or> fless max_val min_val"

definition actual_corrupted :: "pyfloat list \<Rightarrow> bool" where
  "actual_corrupted time_vals =
     list_ex (\<lambda>t. fless (Fin (10 ^ 100)) (fabs t) \<or> isinf t \<or> isnan t) time_vals"

text \<open>
  The reading loops: a value is read where its four bytes lie in the buffer and is left
  out otherwise. \<open>len(self.bin_data)\<close> raises \<open>TypeError\<close> when there is no buffer, if the
  loop has a round at all.
\<close>

definition read_floats :: "byte list option \<Rightarrow> nat list \<Rightarrow> py_error + pyfloat list" where
  "read_floats bin offsets =
     (case bin of
        None \<Rightarrow> if offsets = [] then Inr [] else Inl TypeError
      | Some buf \<Rightarrow>
          Inr (map (unpack_from_f buf) (filter (\<lambda>offset. offset + 4 \<le> length buf) offsets)))"

text \<open>The writing loop: \<open>new_times[i]\<close> goes to \<open>byte_offset + i * 4\<close>, with no test.\<close>

fun write_floats :: "byte list \<Rightarrow> nat \<Rightarrow> pyfloat list \<Rightarrow> py_error + byte list" where
  "write_floats buf offset [] = Inr buf"
| "write_floats buf offset (time_val # rest) =
     (case pack_into_f buf offset time_val of
        Inl e \<Rightarrow> Inl e
      | Inr buf' \<Rightarrow> write_floats buf' (offset + 4) rest)"

text \<open>\<open>[i * frame_time for i in range(count)]\<close> with \<open>frame_time = 1.0 / 30.0\<close>.\<close>

definition new_times :: "nat \<Rightarrow> pyfloat list" where
  "new_times n = map (\<lambda>i. Fin (of_nat i * (1 / 30))) [0..<n]"

definition set_bounds :: "nat \<Rightarrow> pyfloat list \<Rightarrow> pyfloat list \<Rightarrow> document \<Rightarrow> document" where
  "set_bounds idx new_min new_max d =
     d\<lparr>accessors := Some ((get_list (accessors d))
          [idx := (get_list (accessors d) ! idx)\<lparr>acc_min := Some new_min, acc_max := Some new_max\<rparr>])\<rparr>"

text \<open>The body of the loop over the samplers of animation \<open>anim_idx\<close>.\<close>

definition fix_sampler :: "nat \<Rightarrow> nat \<Rightarrow> sampler \<Rightarrow> daybreak_fixer \<Rightarrow> py_error + daybreak_fixer" where
  "fix_sampler anim_idx sampler_idx smp s =
     (case input smp of
        None \<Rightarrow> Inr s
      | Some input_accessor_idx \<Rightarrow>
      case list_getitem (get_list (accessors (doc s))) input_accessor_idx of
        Inl e \<Rightarrow> Inl e
      | Inr accessor \<Rightarrow>
      case first_or_zero (acc_min accessor) of Inl e \<Rightarrow> Inl e | Inr min_val \<Rightarrow>
      case first_or_zero (acc_max accessor) of Inl e \<Rightarrow> Inl e | Inr max_val \<Rightarrow>
      if \<not> is_corrupted min_val max_val then Inr s
      else
      case bufferView accessor of
        None \<Rightarrow> Inr s
      | Some buffer_view_idx \<Rightarrow>
      if \<not> buffer_view_idx < length (get_list (bufferViews (doc s))) then Inr s
      else
        let buffer_view = get_list (bufferViews (doc s)) ! buffer_view_idx;
            byte_offset = get_nat (bv_byteOffset buffer_view) + get_nat (acc_byteOffset accessor);
            count = get_nat (acc_count accessor)
        in
        case read_floats (bin_data s) (map (\<lambda>i. byte_offset + i * 4) [0..<count]) of
          Inl e \<Rightarrow> Inl e
        | Inr time_vals \<Rightarrow>
        if time_vals = [] then Inr s
        else if actual_corrupted time_vals then
          (case write_floats (the (bin_data s)) byte_offset (new_times count) of
             Inl e \<Rightarrow> Inl e
           | Inr buf' \<Rightarrow>
               Inr (s\<lparr>doc := set_bounds input_accessor_idx [py_min (new_times count)]
                            [py_max (new_times count)] (doc s),
                      bin_data := Some buf',
                      fixes_applied := fixes_applied s
                        @ [Regenerated anim_idx sampler_idx count,
                           Fixed_timing anim_idx sampler_idx min_val (py_min (new_times count))
                             max_val (py_max (new_times count))]\<rparr>))
        else
          Inr (s\<lparr>doc := set_bounds input_accessor_idx [py_min time_vals] [py_max time_vals] (doc s),
                 fixes_applied := fixes_applied s
                   @ [Fixed_timing anim_idx sampler_idx min_val (py_min time_vals)
                        max_val (py_max time_vals)]\<rparr>))"

definition fix_animation_timing :: "daybreak_fixer \<Rightarrow> py_error + daybreak_fixer" where
  "fix_animation_timing s =
     foldE (\<lambda>(anim_idx, animation).
              foldE (\<lambda>(sampler_idx, smp). fix_sampler anim_idx sampler_idx smp)
                (enumerate 0 (get_list (samplers animation))))
       (enumerate 0 (get_list (doc_animations (doc s)))) s"

section \<open>Extreme coordinates\<close>

definition is_extreme :: "pyfloat list \<Rightarrow> bool" where
  "is_extreme vs = list_ex (\<lambda>v. fless (Fin 10000) (fabs v) \<or> isinf v \<or> isnan v) vs"

text \<open>\<open>type_sizes.get(acc_type, 1)\<close>.\<close>

definition type_sizes :: "string option \<Rightarrow> nat" where
  "type_sizes t =
     (if t = Some ''SCALAR'' then 1 else if t = Some ''VEC2'' then 2
      else if t = Some ''VEC3'' then 3 else if t = Some ''VEC4'' then 4
      else if t = Some ''MAT4'' then 16 else 1)"

text \<open>The body of the loop over the accessors.\<close>

definition fix_accessor :: "nat \<Rightarrow> daybreak_fixer \<Rightarrow> py_error + daybreak_fixer" where
  "fix_accessor acc_idx s =
     (let accessor = get_list (accessors (doc s)) ! acc_idx;
          min_vals = get_list (acc_min accessor);
          max_vals = get_list (acc_max accessor)
      in
      if componentType accessor \<noteq> Some 5126 then Inr s
      else if min_vals = [] \<or> max_vals = [] then Inr s
      else if \<not> is_extreme (min_vals @ max_vals) then Inr s
      else
      case bufferView accessor of
        None \<Rightarrow> Inr s
      | Some buffer_view_idx \<Rightarrow>
      if \<not> buffer_view_idx < length (get_list (bufferViews (doc s))) then Inr s
      else
        let buffer_view = get_list (bufferViews (doc s)) ! buffer_view_idx;
            byte_offset = get_nat (bv_byteOffset buffer_view) + get_nat (acc_byteOffset accessor);
            count = get_nat (acc_count accessor);
            num_components = type_sizes (acc_type accessor)
        in
        case mapE (\<lambda>comp. read_floats (bin_data s)
                     (map (\<lambda>i. byte_offset + (i * num_components + comp) * 4) [0..<count]))
               [0..<num_components] of
          Inl e \<Rightarrow> Inl e
        | Inr all_values \<Rightarrow>
        let new_min = map (\<lambda>vals. if vals = [] then Fin 0 else py_min vals) all_values;
            new_max = map (\<lambda>vals. if vals = [] then Fin 0 else py_max vals) all_values
        in
        if is_extreme (new_min @ new_max) then
          Inr (s\<lparr>issues_found := issues_found s
                   @ [Extreme_values acc_idx (acc_type accessor) new_min new_max]\<rparr>)
        else
          Inr (s\<lparr>doc := set_bounds acc_idx new_min new_max (doc s),
                 fixes_applied := fixes_applied s @ [Fixed_bounds acc_idx min_vals new_min]\<rparr>))"

definition fix_extreme_coordinates :: "daybreak_fixer \<Rightarrow> py_error + daybreak_fixer" where
  "fix_extreme_coordinates s =
     foldE fix_accessor [0..<length (get_list (accessors (doc s)))] s"

section \<open>Validation and the whole session\<close>

definition validate_structure :: "daybreak_fixer \<Rightarrow> daybreak_fixer" where
  "validate_structure s =
     s\<lparr>issues_found := issues_found s
        @ (if has_scenes (doc s) then [] else [Missing_field ''scenes''])
        @ (if has_nodes (doc s) then [] else [Missing_field ''nodes''])
        @ concat (map (\<lambda>(i, accessor).
              case bufferView accessor of
                None \<Rightarrow> []
              | Some bv_idx \<Rightarrow>
                  if length (get_list (bufferViews (doc s))) \<le> bv_idx
                  then [Invalid_bufferView i bv_idx] else [])
            (enumerate 0 (get_list (accessors (doc s)))))
        @ concat (map (\<lambda>(i, buffer_view).
              case bv_buffer buffer_view of
                None \<Rightarrow> []
              | Some buf_idx \<Rightarrow>
                  if length (get_list (buffers (doc s))) \<le> buf_idx
                  then [Invalid_buffer i buf_idx] else [])
            (enumerate 0 (get_list (bufferViews (doc s)))))\<rparr>"

text \<open>
  \<open>fix_all\<close> after a successful \<open>load\<close>: the three passes, then the report, which
  changes nothing; the result is whether no issue was found.
\<close>

definition fix_all :: "daybreak_fixer \<Rightarrow> py_error + daybreak_fixer \<times> bool" where
  "fix_all s =
     (case fix_animation_timing s of
        Inl e \<Rightarrow> Inl e
      | Inr s1 \<Rightarrow>
      case fix_extreme_coordinates s1 of
        Inl e \<Rightarrow> Inl e
      | Inr s2 \<Rightarrow>
          let s3 = validate_structure s2 in Inr (s3, issues_found s3 = []))"

section \<open>The accessor codec of \<open>fix_gltf_animation_timing.py\<close>\<close>

text \<open>
  \<open>GLTFAnimationFixer\<close> reads and writes the data of an accessor with the stride of its
  buffer view. Its attributes after \<open>load_gltf\<close>: the document, the buffer (\<open>None\<close> when
  the document names no buffer file) and the flag that \<open>save_gltf\<close> looks at.
\<close>

record animation_fixer =
  timing_gltf_data :: document
  timing_bin_data :: "byte list option"
  bin_data_modified :: bool

text \<open>
  \<open>COMPONENT_TYPES\<close>: the format character and the size of a component type;
  \<open>TYPE_SIZES.get(accessor.get('type', 'SCALAR'), 1)\<close>.
\<close>

definition COMPONENT_TYPES :: "nat option \<Rightarrow> (char \<times> nat) option" where
  "COMPONENT_TYPES t =
     (if t = Some 5120 then Some (CHR ''b'', 1) else if t = Some 5121 then Some (CHR ''B'', 1)
      else if t = Some 5122 then Some (CHR ''h'', 2) else if t = Some 5123 then Some (CHR ''H'', 2)
      else if t = Some 5125 then Some (CHR ''I'', 4) else if t = Some 5126 then Some (CHR ''f'', 4)
      else None)"

definition TYPE_SIZES :: "string option \<Rightarrow> nat" where
  "TYPE_SIZES t =
     (if t = Some ''VEC2'' then 2 else if t = Some ''VEC3'' then 3
      else if t = Some ''VEC4'' then 4 else if t = Some ''MAT2'' then 4
      else if t = Some ''MAT3'' then 9 else if t = Some ''MAT4'' then 16 else 1)"


text \<open>
  \<open>struct.pack_into(fmt_char, buf, pos, value)\<close> with a float as value: an integer
  format refuses it with \<open>struct.error\<close>.
\<close>

definition pack_into :: "char \<Rightarrow> byte list \<Rightarrow> nat \<Rightarrow> pyfloat \<Rightarrow> py_error + byte list" where
  "pack_into fmt_char buf pos v =
     (if fmt_char = CHR ''f'' then pack_into_f buf pos v else Inl StructError)"

text \<open>
  The positions of the components, element by element: \<open>pos + j * component_size\<close> with
  \<open>pos = total_offset + i * stride\<close>.
\<close>

definition component_positions :: "nat \<Rightarrow> nat \<Rightarrow> nat \<Rightarrow> nat \<Rightarrow> nat \<Rightarrow> nat list" where
  "component_positions total_offset stride component_size type_size n =
     concat (map (\<lambda>i. map (\<lambda>j. total_offset + i * stride + j * component_size) [0..<type_size])
               [0..<n])"



text \<open>
  The writing loops stop when the values are used up, and return \<open>False\<close> at the first
  component that does not lie in the buffer. The buffer is changed in place, so what was
  written before a \<open>False\<close> or an exception stays: the result is the outcome and the
  buffer.
\<close>

fun write_components ::
  "char \<Rightarrow> nat \<Rightarrow> nat list \<Rightarrow> pyfloat list \<Rightarrow> byte list \<Rightarrow> (py_error + bool) \<times> byte list" where
  "write_components fmt_char component_size [] values buf = (Inr True, buf)"
| "write_components fmt_char component_size (component_pos # rest) [] buf = (Inr True, buf)"
| "write_components fmt_char component_size (component_pos # rest) (v # values) buf =
     (if length buf < component_pos + component_size then (Inr False, buf)
      else case pack_into fmt_char buf component_pos v of
             Inl e \<Rightarrow> (Inl e, buf)
           | Inr buf' \<Rightarrow> write_components fmt_char component_size rest values buf')"

definition write_accessor_data ::
  "nat \<Rightarrow> pyfloat list \<Rightarrow> animation_fixer \<Rightarrow> (py_error + bool) \<times> animation_fixer" where
  "write_accessor_data accessor_idx values s =
     (case accessors (timing_gltf_data s) of
        None \<Rightarrow> (Inl KeyError, s)
      | Some accs \<Rightarrow>
      if length accs \<le> accessor_idx then (Inr False, s)
      else
      let accessor = accs ! accessor_idx in
      case bufferView accessor of
        None \<Rightarrow> (Inr False, s)
      | Some buffer_view_idx \<Rightarrow>
      case bufferViews (timing_gltf_data s) of
        None \<Rightarrow> (Inl KeyError, s)
      | Some bvs \<Rightarrow>
      case list_getitem bvs buffer_view_idx of
        Inl e \<Rightarrow> (Inl e, s)
      | Inr buffer_view \<Rightarrow>
      case COMPONENT_TYPES (componentType accessor) of
        None \<Rightarrow> (Inr False, s)
      | Some (fmt_char, component_size) \<Rightarrow>
        let total_offset = get_nat (bv_byteOffset buffer_view) + get_nat (acc_byteOffset accessor);
            type_size = TYPE_SIZES (acc_type accessor);
            stride = (case byteStride buffer_view of
                        None \<Rightarrow> component_size * type_size | Some st \<Rightarrow> st);
            positions = component_positions total_offset stride component_size type_size
                          (get_nat (acc_count accessor))
        in
        if positions = [] \<or> values = [] then (Inr True, s\<lparr>bin_data_modified := True\<rparr>)
        else case timing_bin_data s of
               None \<Rightarrow> (Inl TypeError, s)
             | Some buf \<Rightarrow>
                 (case write_components fmt_char component_size positions values buf of
                    (Inr True, buf') \<Rightarrow>
                      (Inr True, s\<lparr>timing_bin_data := Some buf', bin_data_modified := True\<rparr>)
                  | (outcome, buf') \<Rightarrow> (outcome, s\<lparr>timing_bin_data := Some buf'\<rparr>)))"

section \<open>Notions used to state the properties\<close>

definition dfs_order :: "nat list list \<Rightarrow> nat list \<Rightarrow> nat set \<Rightarrow> nat list" where
  "dfs_order g stack vis = snd (traverse g stack (vis, []))"

definition edges :: "nat list list \<Rightarrow> (nat \<times> nat) set" where
  "edges g = {(p, c). c \<in> set (adj g p)}"

text \<open>
  A chain is a list of nodes in which each is a child of the one before. The depth of the
  calls of \<open>dfs\<close> stays within the allowance when every chain of distinct nodes is
  shorter than the allowance.
\<close>

fun chain :: "nat list list \<Rightarrow> nat list \<Rightarrow> bool" where
  "chain g [] = True"
| "chain g [x] = True"
| "chain g (x # y # p) = (y \<in> set (adj g x) \<and> chain g (y # p))"

definition chains_below :: "nat \<Rightarrow> nat list list \<Rightarrow> bool" where
  "chains_below allow g \<longleftrightarrow> (\<forall>p. chain g p \<and> distinct p \<longrightarrow> length p < allow)"

definition sorted_nodes :: "nat list list \<Rightarrow> nat list" where
  "sorted_nodes g =
     dfs_order g (root_nodes g) {}
       @ filter (\<lambda>i. i \<notin> set (dfs_order g (root_nodes g) {})) [0..<length g]"

definition rename_node :: "(nat \<Rightarrow> nat) \<Rightarrow> 'a node \<Rightarrow> 'a node" where
  "rename_node f nd = nd\<lparr>children := map_option (map f) (children nd)\<rparr>"

definition rename_scene :: "(nat \<Rightarrow> nat) \<Rightarrow> scene \<Rightarrow> scene" where
  "rename_scene f sc = sc\<lparr>scene_nodes := map_option (map f) (scene_nodes sc)\<rparr>"

definition rename_skin :: "(nat \<Rightarrow> nat) \<Rightarrow> skin \<Rightarrow> skin" where
  "rename_skin f sk =
     sk\<lparr>skeleton := map_option f (skeleton sk), joints := map_option (map f) (joints sk)\<rparr>"

definition rename_channel :: "(nat \<Rightarrow> nat) \<Rightarrow> channel \<Rightarrow> channel" where
  "rename_channel f ch = ch\<lparr>target_node := map_option f (target_node ch)\<rparr>"

definition rename_animation :: "(nat \<Rightarrow> nat) \<Rightarrow> animation \<Rightarrow> animation" where
  "rename_animation f an = an\<lparr>channels := map_option (map (rename_channel f)) (channels an)\<rparr>"

definition opt_list :: "'a list option \<Rightarrow> 'a list" where
  "opt_list xo = (case xo of None \<Rightarrow> [] | Some xs \<Rightarrow> xs)"

definition scene_refs :: "scene \<Rightarrow> nat list" where
  "scene_refs sc = opt_list (scene_nodes sc)"

definition skin_refs :: "skin \<Rightarrow> nat list" where
  "skin_refs sk = (case skeleton sk of None \<Rightarrow> [] | Some r \<Rightarrow> [r]) @ opt_list (joints sk)"

definition channel_refs :: "channel \<Rightarrow> nat list" where
  "channel_refs ch = (case target_node ch of None \<Rightarrow> [] | Some k \<Rightarrow> [k])"

definition animation_refs :: "animation \<Rightarrow> nat list" where
  "animation_refs an = concat (map channel_refs (opt_list (channels an)))"

definition node_refs :: "'a gltf \<Rightarrow> nat list" where
  "node_refs d =
     concat (node_graph (opt_list (nodes d)))
       @ concat (map scene_refs (opt_list (scenes d)))
       @ concat (map skin_refs (opt_list (skins d)))
       @ concat (map animation_refs (opt_list (animations d)))"

definition refs_in_range :: "'a gltf \<Rightarrow> bool" where
  "refs_in_range d = list_all (\<lambda>i. i < length (opt_list (nodes d))) (node_refs d)"

text \<open>The document that the node-order pass leaves when it reorders.\<close>

definition reordered_gltf :: "'a gltf \<Rightarrow> 'a gltf" where
  "reordered_gltf d =
     (let ns = opt_list (nodes d);
          sorted_indices = sorted_nodes (node_graph ns);
          f = index_of sorted_indices
      in \<lparr>nodes = Some (map (\<lambda>old_idx. rename_node f (ns ! old_idx)) sorted_indices),
          scenes = map_option (map (rename_scene f)) (scenes d),
          skins = map_option (map (rename_skin f)) (skins d),
          animations = map_option (map (rename_animation f)) (animations d)\<rparr>)"

text \<open>
  The nodes that some root reaches: a root is an index of the list that no children list
  contains.
\<close>

definition from_roots :: "nat list list \<Rightarrow> nat set" where
  "from_roots g = {y. \<exists>r. r < length g \<and> r \<notin> set (concat g) \<and> (r, y) \<in> (edges g)\<^sup>*}"

definition forest :: "nat list list \<Rightarrow> bool" where
  "forest g \<longleftrightarrow>
     (\<forall>p q c. (p, c) \<in> edges g \<and> (q, c) \<in> edges g \<longrightarrow> p = q) \<and> acyclic (edges g)"

definition cyclic_nodes :: "string node list" where
  "cyclic_nodes =
     [\<lparr>children = Some [2], other_fields = ''a''\<rparr>,
      \<lparr>children = None, other_fields = ''b''\<rparr>,
      \<lparr>children = Some [0], other_fields = ''c''\<rparr>]"

definition cyclic_fixer :: "string bone_fixer" where
  "cyclic_fixer =
     \<lparr>gltf_data = \<lparr>nodes = Some cyclic_nodes, scenes = Some [\<lparr>scene_nodes = Some [1]\<rparr>],
                    skins = None, animations = None\<rparr>,
      reordered = False\<rparr>"

definition self_child_fixer :: "string bone_fixer" where
  "self_child_fixer =
     \<lparr>gltf_data =
        \<lparr>nodes = Some [\<lparr>children = Some [0], other_fields = ''a''\<rparr>,
                       \<lparr>children = None, other_fields = ''b''\<rparr>],
         scenes = None, skins = None, animations = None\<rparr>,
      reordered = False\<rparr>"

definition arm_nodes :: "string node list" where
  "arm_nodes =
     [\<lparr>children = None, other_fields = ''hand''\<rparr>,
      \<lparr>children = Some [0], other_fields = ''arm''\<rparr>,
      \<lparr>children = Some [1], other_fields = ''body''\<rparr>]"

definition arm_fixer :: "string bone_fixer" where
  "arm_fixer =
     \<lparr>gltf_data =
        \<lparr>nodes = Some arm_nodes,
         scenes = Some [\<lparr>scene_nodes = Some [2]\<rparr>],
         skins = Some [\<lparr>skeleton = Some 2, joints = Some [0, 1, 2]\<rparr>],
         animations = Some [\<lparr>channels = Some [\<lparr>target_node = Some 0\<rparr>]\<rparr>]\<rparr>,
      reordered = False\<rparr>"

definition shared_child_fixer :: "string bone_fixer" where
  "shared_child_fixer =
     \<lparr>gltf_data =
        \<lparr>nodes = Some [\<lparr>children = None, other_fields = ''b''\<rparr>,
                       \<lparr>children = Some [0, 2], other_fields = ''a''\<rparr>,
                       \<lparr>children = Some [0], other_fields = ''c''\<rparr>],
         scenes = None, skins = None, animations = None\<rparr>,
      reordered = False\<rparr>"

definition root_joints :: "nat list \<Rightarrow> nat list list \<Rightarrow> nat list" where
  "root_joints js g = filter (\<lambda>j. j \<notin> set (concat g)) js"

definition sorted_joints :: "nat list \<Rightarrow> ('a, 'b) node_scheme list \<Rightarrow> nat list" where
  "sorted_joints js ns =
     (let g = joint_graph js ns; reached = dfs_order g (root_joints js g) {}
      in reached @ filter (\<lambda>j. j \<notin> set reached) js)"

definition joints_in_range :: "nat list \<Rightarrow> ('a, 'b) node_scheme list \<Rightarrow> bool" where
  "joints_in_range js ns = list_all (\<lambda>j. j < length ns) js"

definition two_bones :: "string node list" where
  "two_bones = [\<lparr>children = Some [1], other_fields = ''arm''\<rparr>,
                \<lparr>children = None, other_fields = ''hand''\<rparr>]"

definition loop_bones :: "string node list" where
  "loop_bones = [\<lparr>children = None, other_fields = ''root''\<rparr>,
                 \<lparr>children = Some [2], other_fields = ''arm''\<rparr>,
                 \<lparr>children = Some [1], other_fields = ''hand''\<rparr>]"

text \<open>The children graph after the nodes are moved to the order \<open>p\<close> and renamed.\<close>

definition renamed_graph :: "nat list \<Rightarrow> nat list list \<Rightarrow> nat list list" where
  "renamed_graph p g = map (\<lambda>old_idx. map (index_of p) (g ! old_idx)) p"

definition arm_reordered :: "string bone_fixer" where
  "arm_reordered =
     \<lparr>gltf_data =
        \<lparr>nodes = Some [\<lparr>children = Some [1], other_fields = ''body''\<rparr>,
                       \<lparr>children = Some [2], other_fields = ''arm''\<rparr>,
                       \<lparr>children = None, other_fields = ''hand''\<rparr>],
         scenes = Some [\<lparr>scene_nodes = Some [0]\<rparr>],
         skins = Some [\<lparr>skeleton = Some 0, joints = Some [2, 1, 0]\<rparr>],
         animations = Some [\<lparr>channels = Some [\<lparr>target_node = Some 2\<rparr>]\<rparr>]\<rparr>,
      reordered = True\<rparr>"

definition arm_fixed :: "string bone_fixer" where
  "arm_fixed =
     \<lparr>gltf_data =
        \<lparr>nodes = Some [\<lparr>children = Some [1], other_fields = ''body''\<rparr>,
                       \<lparr>children = Some [2], other_fields = ''arm''\<rparr>,
                       \<lparr>children = None, other_fields = ''hand''\<rparr>],
         scenes = Some [\<lparr>scene_nodes = Some [0]\<rparr>],
         skins = Some [\<lparr>skeleton = Some 0, joints = Some [0, 1, 2]\<rparr>],
         animations = Some [\<lparr>channels = Some [\<lparr>target_node = Some 2\<rparr>]\<rparr>]\<rparr>,
      reordered = True\<rparr>"

text \<open>
  The warnings that a run of the node-order pass has written to the log when it returns:
  the first child found below its parent (the test loop stops there), and every node that
  the traversal did not enter.
\<close>

datatype warning = Child_lower_index nat nat | Not_connected nat

fun first_lower_child :: "(nat \<times> ('a, 'b) node_scheme) list \<Rightarrow> warning list" where
  "first_lower_child [] = []"
| "first_lower_child ((i, nd) # rest) =
     (case filter (\<lambda>c. c < i) (case children nd of None \<Rightarrow> [] | Some cs \<Rightarrow> cs) of
        [] \<Rightarrow> first_lower_child rest
      | c # _ \<Rightarrow> [Child_lower_index i c])"

definition node_pass_warnings :: "nat \<Rightarrow> ('a, 'b) node_scheme list \<Rightarrow> py_error + warning list" where
  "node_pass_warnings allow ns =
     (if \<not> needs_reorder_nodes ns then Inr []
      else
        let g = node_graph ns in
        case dfs_children allow g (root_nodes g) ({}, []) of
          Inl e \<Rightarrow> Inl e
        | Inr (visited, reached) \<Rightarrow>
            Inr (first_lower_child (enumerate 0 ns)
                 @ map Not_connected (filter (\<lambda>i. i \<notin> visited) [0..<length ns])))"

text \<open>
  Where the data of an accessor starts, and what the pass decodes for it: for each
  component the values of all elements whose four bytes lie in the buffer, the elements
  taken as tightly packed.
\<close>

definition accessor_offset :: "document \<Rightarrow> accessor \<Rightarrow> nat" where
  "accessor_offset d acc =
     get_nat (bv_byteOffset (get_list (bufferViews d) ! the (bufferView acc)))
       + get_nat (acc_byteOffset acc)"

definition spatial_columns :: "byte list \<Rightarrow> document \<Rightarrow> accessor \<Rightarrow> pyfloat list list" where
  "spatial_columns buf d acc =
     map (\<lambda>comp. map (unpack_from_f buf)
            (filter (\<lambda>offset. offset + 4 \<le> length buf)
               (map (\<lambda>i. accessor_offset d acc + (i * type_sizes (acc_type acc) + comp) * 4)
                  [0..<get_nat (acc_count acc)])))
       [0..<type_sizes (acc_type acc)]"

definition recomputed_min :: "pyfloat list list \<Rightarrow> pyfloat list" where
  "recomputed_min cols = map (\<lambda>vals. if vals = [] then Fin 0 else py_min vals) cols"

definition recomputed_max :: "pyfloat list list \<Rightarrow> pyfloat list" where
  "recomputed_max cols = map (\<lambda>vals. if vals = [] then Fin 0 else py_max vals) cols"

text \<open>An accessor of floats whose stored bounds the pass takes for extreme and can look up.\<close>

definition spatial_suspect :: "document \<Rightarrow> accessor \<Rightarrow> bool" where
  "spatial_suspect d acc \<longleftrightarrow>
     componentType acc = Some 5126
     \<and> get_list (acc_min acc) \<noteq> [] \<and> get_list (acc_max acc) \<noteq> []
     \<and> is_extreme (get_list (acc_min acc) @ get_list (acc_max acc))
     \<and> (case bufferView acc of None \<Rightarrow> False
         | Some b \<Rightarrow> b < length (get_list (bufferViews d)))"

text \<open>
  What the rounds for the other accessors leave as it is: the buffer, the buffer views,
  the accessor \<open>idx\<close>, the issues found so far, and the absence of a fix for \<open>idx\<close>.
\<close>

definition kept :: "daybreak_fixer \<Rightarrow> nat \<Rightarrow> daybreak_fixer \<Rightarrow> bool" where
  "kept s idx t \<longleftrightarrow>
     bin_data t = bin_data s \<and> bufferViews (doc t) = bufferViews (doc s)
     \<and> length (get_list (accessors (doc t))) = length (get_list (accessors (doc s)))
     \<and> get_list (accessors (doc t)) ! idx = get_list (accessors (doc s)) ! idx
     \<and> set (issues_found s) \<subseteq> set (issues_found t)
     \<and> set (fixes_applied s) \<subseteq> set (fixes_applied t)
     \<and> (\<forall>old mn. Fixed_bounds idx old mn \<in> set (fixes_applied t)
           \<longrightarrow> Fixed_bounds idx old mn \<in> set (fixes_applied s))"

text \<open>
  One scalar accessor with the stored minimum 20000, over four bytes that hold a NaN.
\<close>

definition nan_accessor :: accessor where
  "nan_accessor = \<lparr>acc_min = Some [Fin 20000], acc_max = Some [Fin 5], bufferView = Some 0,
     acc_byteOffset = None, acc_count = Some 1, componentType = Some 5126,
     acc_type = Some ''SCALAR''\<rparr>"

definition nan_document :: "accessor \<Rightarrow> document" where
  "nan_document acc = \<lparr>doc_animations = None, accessors = Some [acc],
     bufferViews = Some [\<lparr>bv_byteOffset = None, bv_buffer = Some 0, byteStride = None\<rparr>],
     buffers = Some [\<lparr>uri = Some ''model.bin''\<rparr>], has_scenes = True, has_nodes = True\<rparr>"

definition nan_fixer :: "accessor \<Rightarrow> daybreak_fixer" where
  "nan_fixer acc = \<lparr>doc = nan_document acc, bin_data = Some [0, 0, 0xC0, 0x7F],
     fixes_applied = [], issues_found = []\<rparr>"


















section \<open>Properties\<close>

section \<open>What the traversal appends\<close>

lemma dfs_vis_induct [consumes 0, case_names Nil Seen New]:
  assumes "\<And>g vis. Q g [] vis"
    and "\<And>g x pending vis. x \<in> vis \<Longrightarrow> Q g pending vis \<Longrightarrow> Q g (x # pending) vis"
    and "\<And>g x pending vis. x \<notin> vis \<Longrightarrow> Q g (adj g x @ pending) (insert x vis)
           \<Longrightarrow> Q g (x # pending) vis"
  shows "Q g stack vis"
proof -
  have "Q g stack (fst st)" for st :: "nat set \<times> nat list"
  proof (induction g stack st rule: traverse.induct)
    case (1 g st)
    show ?case by (rule assms(1))
  next
    case (2 g x pending visited sorted_indices)
    show ?case
    proof (cases "x \<in> visited")
      case True
      then show ?thesis using 2(1) assms(2) by simp
    next
      case False
      then show ?thesis using 2(2) assms(3) by simp
    qed
  qed
  from this[of "(vis, [])"] show ?thesis by simp
qed

lemma dfs_out_any:
  "traverse g stack (vis, out) = (fst (traverse g stack (vis, [])), out @ snd (traverse g stack (vis, [])))"
proof (induction g stack vis arbitrary: out rule: dfs_vis_induct)
  case (Nil g vis)
  then show ?case by simp
next
  case (Seen g x pending vis)
  have "traverse g (x # pending) (vis, out) = traverse g pending (vis, out)"
    and "traverse g (x # pending) (vis, []) = traverse g pending (vis, [])"
    using Seen.hyps by simp_all
  then show ?case using Seen.IH[of out] by (simp only:)
next
  case (New g x pending vis)
  have "traverse g (x # pending) (vis, out) = traverse g (adj g x @ pending) (insert x vis, out @ [x])"
    using New.hyps by simp
  also have "\<dots> = (fst (traverse g (adj g x @ pending) (insert x vis, [])),
      (out @ [x]) @ snd (traverse g (adj g x @ pending) (insert x vis, [])))"
    by (rule New.IH)
  finally have a: "traverse g (x # pending) (vis, out) =
      (fst (traverse g (adj g x @ pending) (insert x vis, [])),
       (out @ [x]) @ snd (traverse g (adj g x @ pending) (insert x vis, [])))" .
  have "traverse g (x # pending) (vis, []) = traverse g (adj g x @ pending) (insert x vis, [] @ [x])"
    using New.hyps by simp
  also have "\<dots> = (fst (traverse g (adj g x @ pending) (insert x vis, [])),
      ([] @ [x]) @ snd (traverse g (adj g x @ pending) (insert x vis, [])))"
    by (rule New.IH)
  finally have b: "traverse g (x # pending) (vis, []) =
      (fst (traverse g (adj g x @ pending) (insert x vis, [])),
       [x] @ snd (traverse g (adj g x @ pending) (insert x vis, [])))" by simp
  show ?case by (simp only: a b fst_conv snd_conv append_assoc)
qed

lemma dfs_order_Nil [simp]: "dfs_order g [] vis = []"
  by (simp add: dfs_order_def)

lemma dfs_order_Cons:
  "dfs_order g (x # pending) vis =
     (if x \<in> vis then dfs_order g pending vis
      else x # dfs_order g (adj g x @ pending) (insert x vis))"
proof (cases "x \<in> vis")
  case True
  then show ?thesis by (simp add: dfs_order_def)
next
  case False
  have "traverse g (x # pending) (vis, []) = traverse g (adj g x @ pending) (insert x vis, [x])"
    using False by simp
  then show ?thesis
    using False dfs_out_any[of g "adj g x @ pending" "insert x vis" "[x]"]
    by (simp add: dfs_order_def)
qed

lemma dfs_visited: "fst (traverse g stack (vis, [])) = vis \<union> set (dfs_order g stack vis)"
proof (induction g stack vis rule: dfs_vis_induct)
  case (Nil g vis)
  then show ?case by simp
next
  case (Seen g x pending vis)
  then show ?case by (simp add: dfs_order_Cons)
next
  case (New g x pending vis)
  have "traverse g (x # pending) (vis, []) = traverse g (adj g x @ pending) (insert x vis, [x])"
    using New.hyps by simp
  then have "fst (traverse g (x # pending) (vis, [])) = fst (traverse g (adj g x @ pending) (insert x vis, []))"
    using dfs_out_any[of g "adj g x @ pending" "insert x vis" "[x]"] by simp
  then show ?case using New by (simp add: dfs_order_Cons)
qed

lemma dfs_split:
  "traverse g stack (vis, out) = (vis \<union> set (dfs_order g stack vis), out @ dfs_order g stack vis)"
  using dfs_out_any[of g stack vis out] dfs_visited[of g stack vis]
  by (simp add: dfs_order_def)

lemma dfs_order_fresh: "set (dfs_order g stack vis) \<inter> vis = {}"
  by (induction g stack vis rule: dfs_vis_induct) (auto simp: dfs_order_Cons)

lemma dfs_order_distinct: "distinct (dfs_order g stack vis)"
proof (induction g stack vis rule: dfs_vis_induct)
  case (New g x pending vis)
  then show ?case
    using dfs_order_fresh[of g "adj g x @ pending" "insert x vis"]
    by (auto simp: dfs_order_Cons)
qed (auto simp: dfs_order_Cons)

lemma dfs_order_covers: "set stack \<subseteq> vis \<union> set (dfs_order g stack vis)"
  by (induction g stack vis rule: dfs_vis_induct) (auto simp: dfs_order_Cons)

lemma dfs_order_closed:
  "x \<in> set (dfs_order g stack vis) \<Longrightarrow> set (adj g x) \<subseteq> vis \<union> set (dfs_order g stack vis)"
proof (induction g stack vis rule: dfs_vis_induct)
  case (New g y pending vis)
  have c: "set (adj g y) \<subseteq> insert y vis \<union> set (dfs_order g (adj g y @ pending) (insert y vis))"
    using dfs_order_covers[of "adj g y @ pending" "insert y vis" g] by auto
  show ?case
  proof (cases "x = y")
    case True
    then show ?thesis using c New.hyps by (auto simp: dfs_order_Cons)
  next
    case False
    then have "x \<in> set (dfs_order g (adj g y @ pending) (insert y vis))"
      using New.prems New.hyps by (simp add: dfs_order_Cons)
    from New.IH[OF this] show ?thesis using New.hyps by (auto simp: dfs_order_Cons)
  qed
qed (auto simp: dfs_order_Cons)

lemma dfs_order_reach:
  "y \<in> set (dfs_order g stack vis) \<Longrightarrow> \<exists>x\<in>set stack. (x, y) \<in> (edges g)\<^sup>*"
proof (induction g stack vis rule: dfs_vis_induct)
  case (New g x pending vis)
  show ?case
  proof (cases "y = x")
    case True
    then show ?thesis by auto
  next
    case False
    then have "y \<in> set (dfs_order g (adj g x @ pending) (insert x vis))"
      using New.prems New.hyps by (simp add: dfs_order_Cons)
    from New.IH[OF this] obtain z where z: "z \<in> set (adj g x @ pending)" "(z, y) \<in> (edges g)\<^sup>*"
      by blast
    show ?thesis
    proof (cases "z \<in> set (adj g x)")
      case True
      then have "(x, z) \<in> edges g" by (simp add: edges_def)
      then have "(x, y) \<in> (edges g)\<^sup>*" using z(2) by (rule converse_rtrancl_into_rtrancl)
      then show ?thesis by auto
    next
      case False
      then show ?thesis using z by auto
    qed
  qed
qed (auto simp: dfs_order_Cons)

lemma dfs_order_append:
  "dfs_order g (xs @ ys) vis
     = dfs_order g xs vis @ dfs_order g ys (vis \<union> set (dfs_order g xs vis))"
proof (induction g xs vis rule: dfs_vis_induct)
  case (New g x pending vis)
  then show ?case by (simp add: dfs_order_Cons insert_commute Un_commute Un_left_commute)
qed (auto simp: dfs_order_Cons)

section \<open>The recursive traversal and its call depth\<close>

lemma traverse_append: "traverse g (xs @ ys) st = traverse g ys (traverse g xs st)"
proof (cases st)
  case (Pair vis out)
  show ?thesis
    unfolding Pair dfs_split[of g "xs @ ys"] dfs_split[of g xs] dfs_split[of g ys]
    by (simp add: dfs_order_append Un_assoc)
qed

lemma dfs_traverse:
  "dfs allow g x st = Inr st' \<Longrightarrow> st' = traverse g [x] st"
  "dfs_children allow g cs st = Inr st' \<Longrightarrow> st' = traverse g cs st"
proof (induction allow g x st and allow g cs st arbitrary: st' and st' rule: dfs_dfs_children.induct)
  case (1 g x st)
  then show ?case by simp
next
  case (2 allow g x visited sorted_indices)
  show ?case
  proof (cases "x \<in> visited")
    case True
    then have "st' = (visited, sorted_indices)" using 2(2) by simp
    then show ?thesis using True by simp
  next
    case False
    then have "dfs_children allow g (adj g x) (insert x visited, sorted_indices @ [x]) = Inr st'"
      using 2(2) by simp
    from 2(1)[OF False this] show ?thesis using False by simp
  qed
next
  case (3 allow g st)
  then show ?case by simp
next
  case (4 allow g c cs st)
  from 4(3) obtain st1 where c: "dfs allow g c st = Inr st1"
    and cs: "dfs_children allow g cs st1 = Inr st'"
    by (cases "dfs allow g c st") simp_all
  have "st1 = traverse g [c] st" by (rule 4(1)[OF c])
  moreover have "st' = traverse g cs st1" by (rule 4(2)[OF c cs])
  ultimately show ?case using traverse_append[of g "[c]" cs st] by simp
qed

lemma dfs_pos:
  "0 < allow \<Longrightarrow> dfs allow g x (visited, sorted_indices) =
     (if x \<in> visited then Inr (visited, sorted_indices)
      else dfs_children (allow - 1) g (adj g x) (insert x visited, sorted_indices @ [x]))"
  by (cases allow) simp_all

lemma chain_append_one:
  "chain g (p @ [x]) \<longleftrightarrow> chain g p \<and> (p = [] \<or> x \<in> set (adj g (last p)))"
  by (induction g p rule: chain.induct) auto

lemma dfs_returns:
  assumes below: "chains_below allow0 g0"
  shows "chain g0 (anc @ [x]) \<Longrightarrow> distinct anc \<Longrightarrow> set anc \<subseteq> fst st
      \<Longrightarrow> length anc + allow = allow0 \<Longrightarrow> g = g0 \<Longrightarrow> \<exists>st'. dfs allow g x st = Inr st'"
    and "chain g0 anc \<Longrightarrow> distinct anc \<Longrightarrow> set anc \<subseteq> fst st
      \<Longrightarrow> length anc + allow = allow0 \<Longrightarrow> g = g0
      \<Longrightarrow> (anc \<noteq> [] \<Longrightarrow> set cs \<subseteq> set (adj g0 (last anc)))
      \<Longrightarrow> \<exists>st'. dfs_children allow g cs st = Inr st'"
proof (induction allow g x st and allow g cs st arbitrary: anc and anc
    rule: dfs_dfs_children.induct)
  case (1 g x st)
  have "chain g0 anc" using 1(1) by (simp add: chain_append_one)
  then have "length anc < allow0" using below 1(2) by (auto simp: chains_below_def)
  then show ?case using 1(4) by simp
next
  case (2 allow g x visited sorted_indices)
  show ?case
  proof (cases "x \<in> visited")
    case True
    then show ?thesis by simp
  next
    case False
    have "\<exists>st'. dfs_children allow g (adj g x) (insert x visited, sorted_indices @ [x]) = Inr st'"
    proof (rule 2(1)[OF False, of "anc @ [x]"])
      show "chain g0 (anc @ [x])" by (rule 2(2))
      show "distinct (anc @ [x])" using 2(3,4) False by auto
      show "set (anc @ [x]) \<subseteq> fst (insert x visited, sorted_indices @ [x])"
        using 2(4) by auto
      show "length (anc @ [x]) + allow = allow0" using 2(5) by simp
      show "g = g0" by (rule 2(6))
      show "set (adj g x) \<subseteq> set (adj g0 (last (anc @ [x])))" using 2(6) by simp
    qed
    then show ?thesis using False by simp
  qed
next
  case (3 allow g st)
  then show ?case by simp
next
  case (4 allow g c cs st)
  have "chain g0 (anc @ [c])"
    using 4(3) 4(8) by (cases "anc = []") (simp_all add: chain_append_one)
  from 4(1)[OF this 4(4) 4(5) 4(6) 4(7)] obtain st1 where c: "dfs allow g c st = Inr st1" by blast
  have "st1 = traverse g [c] st" by (rule dfs_traverse(1)[OF c])
  then have "fst st \<subseteq> fst st1"
    by (cases st) (simp add: dfs_split)
  then have sub: "set anc \<subseteq> fst st1" using 4(5) by blast
  have "\<exists>st'. dfs_children allow g cs st1 = Inr st'"
    using 4(8) by (intro 4(2)[OF c 4(3) 4(4) sub 4(6) 4(7)]) auto
  then show ?case using c by simp
qed

lemma dfs_children_roots:
  assumes "chains_below allow g"
  shows "dfs_children allow g roots ({}, []) = Inr (traverse g roots ({}, []))"
proof -
  have "\<exists>st'. dfs_children allow g roots ({}, []) = Inr st'"
    by (rule dfs_returns(2)[OF assms, of "[]"]) simp_all
  then show ?thesis using dfs_traverse(2) by blast
qed

lemma chain_tl_children: "chain g p \<Longrightarrow> set (tl p) \<subseteq> set (concat g)"
proof (induction g p rule: chain.induct)
  case (3 g x y p)
  then show ?case using adj_subset[of g x] by auto
qed simp_all

text \<open>A chain of distinct nodes has at most one node more than there are child entries.\<close>

lemma chains_below_if:
  assumes "Suc (length (concat g)) < allow"
  shows "chains_below allow g"
  unfolding chains_below_def
proof (intro allI impI)
  fix p assume p: "chain g p \<and> distinct p"
  then have "distinct (tl p)" by (simp add: distinct_tl)
  then have "length (tl p) = card (set (tl p))" by (simp add: distinct_card)
  also have "\<dots> \<le> card (set (concat g))"
    using chain_tl_children[of g p] p by (intro card_mono) auto
  also have "\<dots> \<le> length (concat g)" by (rule card_length)
  finally have "length p \<le> Suc (length (concat g))" by (cases p) simp_all
  then show "length p < allow" using assms by simp
qed

lemma index_of_less: "x \<in> set xs \<Longrightarrow> index_of xs x < length xs"
  by (induction xs) auto

lemma nth_index_of: "x \<in> set xs \<Longrightarrow> xs ! index_of xs x = x"
  by (induction xs) auto

lemma index_of_nth: "distinct xs \<Longrightarrow> i < length xs \<Longrightarrow> index_of xs (xs ! i) = i"
proof (induction xs arbitrary: i)
  case Nil
  then show ?case by simp
next
  case (Cons a xs)
  then show ?case by (cases i) auto
qed

lemma index_of_append_left: "x \<in> set xs \<Longrightarrow> index_of (xs @ ys) x = index_of xs x"
  by (induction xs) auto

lemma index_of_append_right:
  "x \<notin> set xs \<Longrightarrow> index_of (xs @ ys) x = length xs + index_of ys x"
  by (induction xs) auto

lemma index_of_inj: "x \<in> set xs \<Longrightarrow> y \<in> set xs \<Longrightarrow> index_of xs x = index_of xs y \<Longrightarrow> x = y"
  using nth_index_of by metis

lemma fold_index_mapping:
  "distinct xs \<Longrightarrow>
   fold (\<lambda>(new_idx, old_idx) m. m(old_idx \<mapsto> new_idx)) (enumerate k xs) m0 x
     = (if x \<in> set xs then Some (k + index_of xs x) else m0 x)"
proof (induction xs arbitrary: k m0)
  case Nil
  then show ?case by simp
next
  case (Cons a xs)
  then show ?case by auto
qed

lemma index_mapping_of_distinct:
  "distinct xs \<Longrightarrow> index_mapping_of xs x = (if x \<in> set xs then Some (index_of xs x) else None)"
  using fold_index_mapping[of xs 0 Map.empty x] by (simp add: index_mapping_of_def)

lemma mapE_Inr:
  "(\<And>x. x \<in> set xs \<Longrightarrow> f x = Inr (h x)) \<Longrightarrow> mapE f xs = Inr (map h xs)"
  by (induction xs) auto

lemma mapE_opt_Inr:
  "(\<And>xs x. xo = Some xs \<Longrightarrow> x \<in> set xs \<Longrightarrow> f x = Inr (h x))
     \<Longrightarrow> mapE_opt f xo = Inr (map_option (map h) xo)"
  by (cases xo) (auto simp: mapE_opt_def mapE_Inr)

lemma dfs_order_subset: "set (dfs_order g stack vis) \<subseteq> set stack \<union> set (concat g)"
proof (induction g stack vis rule: dfs_vis_induct)
  case (New g x pending vis)
  then show ?case using adj_subset[of g x] by (auto simp: dfs_order_Cons)
qed (auto simp: dfs_order_Cons)

lemma topological_sort_nodes_Inr:
  assumes "topological_sort_nodes allow ns = Inr r"
  shows "r = (sorted_nodes (node_graph ns), index_mapping_of (sorted_nodes (node_graph ns)))"
proof -
  let ?g = "node_graph ns"
  have len: "length ?g = length ns" by (simp add: node_graph_def)
  from assms obtain st where st: "dfs_children allow ?g (root_nodes ?g) ({}, []) = Inr st"
    by (cases "dfs_children allow ?g (root_nodes ?g) ({}, [])")
      (simp_all add: topological_sort_nodes_def Let_def)
  have "st = traverse ?g (root_nodes ?g) ({}, [])" by (rule dfs_traverse(2)[OF st])
  then have "st = (set (dfs_order ?g (root_nodes ?g) {}), dfs_order ?g (root_nodes ?g) {})"
    by (simp add: dfs_split)
  then show ?thesis
    using assms st len by (simp add: topological_sort_nodes_def sorted_nodes_def Let_def)
qed

lemma topological_sort_nodes_eq:
  assumes "chains_below allow (node_graph ns)"
  shows "topological_sort_nodes allow ns
     = Inr (sorted_nodes (node_graph ns), index_mapping_of (sorted_nodes (node_graph ns)))"
proof -
  have len: "length (node_graph ns) = length ns" by (simp add: node_graph_def)
  show ?thesis
    using len
    by (simp add: topological_sort_nodes_def dfs_children_roots[OF assms] sorted_nodes_def
        dfs_split Let_def)
qed

lemma sorted_nodes_distinct: "distinct (sorted_nodes g)"
  by (auto simp: sorted_nodes_def dfs_order_distinct)

lemma sorted_nodes_set:
  assumes "set (concat g) \<subseteq> {..<length g}"
  shows "set (sorted_nodes g) = {..<length g}"
proof -
  have "set (dfs_order g (root_nodes g) {}) \<subseteq> {..<length g}"
    using dfs_order_subset[of g "root_nodes g" "{}"] assms by (auto simp: root_nodes_def)
  then show ?thesis by (auto simp: sorted_nodes_def)
qed

lemma sorted_nodes_length:
  assumes "set (concat g) \<subseteq> {..<length g}"
  shows "length (sorted_nodes g) = length g"
proof -
  have "card (set (sorted_nodes g)) = length g"
    using sorted_nodes_set[OF assms] by simp
  then show ?thesis using sorted_nodes_distinct[of g] by (simp add: distinct_card)
qed

lemma remap_list_Inr:
  "(\<And>x. x \<in> set xs \<Longrightarrow> m x = Some (f x)) \<Longrightarrow> remap_list m xs = Inr (map f xs)"
  unfolding remap_list_def by (rule mapE_Inr) (simp add: dict_getitem_def)

lemma remap_node_Inr:
  assumes "\<And>c cs. children nd = Some cs \<Longrightarrow> c \<in> set cs \<Longrightarrow> m c = Some (f c)"
  shows "remap_node m nd = Inr (rename_node f nd)"
proof (cases "children nd")
  case None
  then show ?thesis by (simp add: remap_node_def rename_node_def)
next
  case (Some cs)
  then have "remap_list m cs = Inr (map f cs)" using assms by (intro remap_list_Inr) auto
  then show ?thesis using Some by (simp add: remap_node_def rename_node_def)
qed

lemma remap_scene_Inr:
  assumes "\<And>k. k \<in> set (scene_refs sc) \<Longrightarrow> m k = Some (f k)"
  shows "remap_scene m sc = Inr (rename_scene f sc)"
proof (cases "scene_nodes sc")
  case None
  then show ?thesis by (simp add: remap_scene_def rename_scene_def)
next
  case (Some rs)
  then have "remap_list m rs = Inr (map f rs)"
    using assms by (intro remap_list_Inr) (auto simp: scene_refs_def opt_list_def)
  then show ?thesis using Some by (simp add: remap_scene_def rename_scene_def)
qed

lemma remap_skin_Inr:
  assumes "\<And>k. k \<in> set (skin_refs sk) \<Longrightarrow> m k = Some (f k)"
  shows "remap_skin m sk = Inr (rename_skin f sk)"
proof -
  have a: "skeleton sk = Some r \<Longrightarrow> dict_getitem m r = Inr (f r)" for r
    using assms[of r] by (simp add: skin_refs_def dict_getitem_def)
  have b: "joints sk = Some js \<Longrightarrow> remap_list m js = Inr (map f js)" for js
    using assms by (intro remap_list_Inr) (auto simp: skin_refs_def opt_list_def)
  show ?thesis
    by (cases "skeleton sk"; cases "joints sk") (simp_all add: remap_skin_def rename_skin_def a b)
qed

lemma remap_channel_Inr:
  assumes "\<And>k. k \<in> set (channel_refs ch) \<Longrightarrow> m k = Some (f k)"
  shows "remap_channel m ch = Inr (rename_channel f ch)"
  using assms by (cases "target_node ch")
    (simp_all add: remap_channel_def rename_channel_def channel_refs_def dict_getitem_def)

lemma remap_animation_Inr:
  assumes "\<And>k. k \<in> set (animation_refs an) \<Longrightarrow> m k = Some (f k)"
  shows "remap_animation m an = Inr (rename_animation f an)"
proof -
  have "mapE_opt (remap_channel m) (channels an)
      = Inr (map_option (map (rename_channel f)) (channels an))"
  proof (rule mapE_opt_Inr)
    fix cs ch assume "channels an = Some cs" "ch \<in> set cs"
    then have "set (channel_refs ch) \<subseteq> set (animation_refs an)"
      by (auto simp: animation_refs_def opt_list_def)
    then show "remap_channel m ch = Inr (rename_channel f ch)"
      using assms by (intro remap_channel_Inr) auto
  qed
  then show ?thesis by (simp add: remap_animation_def rename_animation_def)
qed

lemma node_graph_length [simp]: "length (node_graph ns) = length ns"
  by (simp add: node_graph_def)

lemma refs_in_range_children:
  "refs_in_range d \<Longrightarrow> nodes d = Some ns \<Longrightarrow> set (concat (node_graph ns)) \<subseteq> {..<length ns}"
  by (auto simp: refs_in_range_def node_refs_def opt_list_def list_all_iff)

lemma node_graph_children:
  "nd \<in> set ns \<Longrightarrow> children nd = Some cs \<Longrightarrow> set cs \<subseteq> set (concat (node_graph ns))"
  by (force simp: node_graph_def)

lemma scene_refs_in:
  "scenes d = Some scs \<Longrightarrow> sc \<in> set scs \<Longrightarrow> set (scene_refs sc) \<subseteq> set (node_refs d)"
  by (auto simp: node_refs_def opt_list_def)

lemma skin_refs_in:
  "skins d = Some sks \<Longrightarrow> sk \<in> set sks \<Longrightarrow> set (skin_refs sk) \<subseteq> set (node_refs d)"
  by (auto simp: node_refs_def opt_list_def)

lemma animation_refs_in:
  "animations d = Some ans \<Longrightarrow> an \<in> set ans \<Longrightarrow> set (animation_refs an) \<subseteq> set (node_refs d)"
  by (auto simp: node_refs_def opt_list_def)

lemma fix_node_hierarchy_reorders_if:
  assumes ns: "nodes (gltf_data s) = Some ns"
    and need: "needs_reorder_nodes ns"
    and ok: "refs_in_range (gltf_data s)"
    and ret: "topological_sort_nodes allow ns = Inr r"
  shows "fix_node_hierarchy allow s
      = Inr (s\<lparr>gltf_data := reordered_gltf (gltf_data s), reordered := True\<rparr>)"
proof -
  define d where "d = gltf_data s"
  define g where "g = node_graph ns"
  define srt where "srt = sorted_nodes g"
  define m where "m = index_mapping_of srt"
  define f where "f = index_of srt"
  have rng: "set (concat g) \<subseteq> {..<length g}"
    using refs_in_range_children[OF ok ns] by (simp add: g_def)
  have srt_set: "set srt = {..<length ns}"
    using sorted_nodes_set[OF rng] by (simp add: srt_def g_def)
  have m: "k < length ns \<Longrightarrow> m k = Some (f k)" for k
    using index_mapping_of_distinct[OF sorted_nodes_distinct, of g k] srt_set
    by (simp add: m_def f_def srt_def)
  have all: "k \<in> set (node_refs d) \<Longrightarrow> k < length ns" for k
    using ok ns by (simp add: refs_in_range_def d_def opt_list_def list_all_iff)
  have ts: "topological_sort_nodes allow ns = Inr (srt, m)"
    using topological_sort_nodes_Inr[OF ret] ret by (simp add: srt_def m_def g_def)
  have s1: "mapE (list_getitem ns) srt = Inr (map (\<lambda>i. ns ! i) srt)"
    using srt_set by (intro mapE_Inr) (auto simp: list_getitem_def)
  have s2: "mapE (remap_node m) (map (\<lambda>i. ns ! i) srt)
      = Inr (map (rename_node f) (map (\<lambda>i. ns ! i) srt))"
  proof (rule mapE_Inr[where h = "rename_node f"])
    fix nd assume "nd \<in> set (map (\<lambda>i. ns ! i) srt)"
    then obtain i where "i \<in> set srt" and nd: "nd = ns ! i" by auto
    then have "i < length ns" using srt_set by simp
    then have mem: "nd \<in> set ns" using nd by simp
    show "remap_node m nd = Inr (rename_node f nd)"
    proof (rule remap_node_Inr)
      fix c cs assume cs: "children nd = Some cs" and c: "c \<in> set cs"
      from node_graph_children[OF mem cs] c
      have "c \<in> set (concat (node_graph ns))" by (rule subsetD)
      then have "c < length ns" using rng by (auto simp: g_def)
      then show "m c = Some (f c)" by (rule m)
    qed
  qed
  have s3: "mapE_opt (remap_scene m) (scenes d) = Inr (map_option (map (rename_scene f)) (scenes d))"
  proof (rule mapE_opt_Inr, rule remap_scene_Inr)
    fix scs sc k assume "scenes d = Some scs" "sc \<in> set scs" "k \<in> set (scene_refs sc)"
    then have "k \<in> set (node_refs d)" using scene_refs_in by blast
    then show "m k = Some (f k)" using all m by blast
  qed
  have s4: "mapE_opt (remap_skin m) (skins d) = Inr (map_option (map (rename_skin f)) (skins d))"
  proof (rule mapE_opt_Inr, rule remap_skin_Inr)
    fix sks sk k assume "skins d = Some sks" "sk \<in> set sks" "k \<in> set (skin_refs sk)"
    then have "k \<in> set (node_refs d)" using skin_refs_in by blast
    then show "m k = Some (f k)" using all m by blast
  qed
  have s5: "mapE_opt (remap_animation m) (animations d)
      = Inr (map_option (map (rename_animation f)) (animations d))"
  proof (rule mapE_opt_Inr, rule remap_animation_Inr)
    fix ans an k assume "animations d = Some ans" "an \<in> set ans" "k \<in> set (animation_refs an)"
    then have "k \<in> set (node_refs d)" using animation_refs_in by blast
    then show "m k = Some (f k)" using all m by blast
  qed
  have r: "reordered_gltf d
      = \<lparr>nodes = Some (map (rename_node f) (map (\<lambda>i. ns ! i) srt)),
         scenes = map_option (map (rename_scene f)) (scenes d),
         skins = map_option (map (rename_skin f)) (skins d),
         animations = map_option (map (rename_animation f)) (animations d)\<rparr>"
    using ns by (simp add: reordered_gltf_def d_def opt_list_def Let_def srt_def g_def f_def)
  show ?thesis
    unfolding fix_node_hierarchy_def d_def[symmetric]
    using ns need by (simp add: d_def[symmetric] ts s1 s2 s3 s4 s5 r)
qed

lemma fix_node_hierarchy_reorders:
  assumes ns: "nodes (gltf_data s) = Some ns"
    and need: "needs_reorder_nodes ns"
    and ok: "refs_in_range (gltf_data s)"
    and depth: "chains_below allow (node_graph ns)"
  shows "fix_node_hierarchy allow s
      = Inr (s\<lparr>gltf_data := reordered_gltf (gltf_data s), reordered := True\<rparr>)"
  by (rule fix_node_hierarchy_reorders_if[OF ns need ok topological_sort_nodes_eq[OF depth]])

lemma fix_node_hierarchy_unchanged:
  "nodes (gltf_data s) = None \<or> (\<exists>ns. nodes (gltf_data s) = Some ns \<and> \<not> needs_reorder_nodes ns)
     \<Longrightarrow> fix_node_hierarchy allow s = Inr s"
  by (auto simp: fix_node_hierarchy_def)

lemma from_roots_alt:
  "from_roots g = {y. \<exists>r\<in>set (root_nodes g). (r, y) \<in> (edges g)\<^sup>*}"
  unfolding from_roots_def root_nodes_def by (simp del: set_concat)

lemma dfs_order_reaches_all:
  assumes "(x, y) \<in> (edges g)\<^sup>*" and "x \<in> set stack"
  shows "y \<in> set (dfs_order g stack {})"
  using assms(1)
proof (induction rule: rtrancl_induct)
  case base
  then show ?case using dfs_order_covers[of stack "{}" g] assms(2) by auto
next
  case (step y z)
  then have "z \<in> set (adj g y)" by (simp add: edges_def)
  then show ?case using dfs_order_closed[OF step.IH] by auto
qed

lemma dfs_order_roots: "set (dfs_order g (root_nodes g) {}) = from_roots g"
  using dfs_order_reach[of _ g "root_nodes g" "{}"] dfs_order_reaches_all[of _ _ g "root_nodes g"]
  by (auto simp: from_roots_alt)

lemma sorted_nodes_layout:
  "sorted_nodes g
     = dfs_order g (root_nodes g) {} @ filter (\<lambda>i. i \<notin> from_roots g) [0..<length g]"
  by (simp add: sorted_nodes_def dfs_order_roots)

text \<open>Nodes with one parent: whoever is entered has its parent entered before.\<close>

lemma dfs_order_parent_first:
  assumes "\<forall>p q c. (p, c) \<in> edges g \<and> (q, c) \<in> edges g \<longrightarrow> p = q"
    and "\<forall>c\<in>set stack. \<forall>p. (p, c) \<in> edges g \<longrightarrow> p \<in> vis"
    and "c \<in> set (dfs_order g stack vis)" and "(p, c) \<in> edges g"
  shows "p \<in> vis \<or> (p \<in> set (dfs_order g stack vis)
            \<and> index_of (dfs_order g stack vis) p < index_of (dfs_order g stack vis) c)"
  using assms
proof (induction g stack vis rule: dfs_vis_induct)
  case (Nil g vis)
  then show ?case by simp
next
  case (Seen g x pending vis)
  then show ?case by (simp add: dfs_order_Cons)
next
  case (New g x pending vis)
  let ?rest = "dfs_order g (adj g x @ pending) (insert x vis)"
  have ord: "dfs_order g (x # pending) vis = x # ?rest"
    using New.hyps by (simp add: dfs_order_Cons)
  have x_rest: "x \<notin> set ?rest"
    using dfs_order_fresh[of g "adj g x @ pending" "insert x vis"] by auto
  show ?case
  proof (cases "c = x")
    case True
    then have "p \<in> vis" using New.prems(2,4) by simp
    then show ?thesis by simp
  next
    case False
    then have c: "c \<in> set ?rest" using New.prems(3) ord by simp
    have par: "\<forall>c'\<in>set (adj g x @ pending). \<forall>p'. (p', c') \<in> edges g \<longrightarrow> p' \<in> insert x vis"
    proof (intro ballI allI impI)
      fix c' p' assume c': "c' \<in> set (adj g x @ pending)" and e: "(p', c') \<in> edges g"
      show "p' \<in> insert x vis"
      proof (cases "c' \<in> set (adj g x)")
        case True
        then have "(x, c') \<in> edges g" by (simp add: edges_def)
        then have "p' = x" using e New.prems(1) by blast
        then show ?thesis by simp
      next
        case False
        then have "c' \<in> set (x # pending)" using c' by simp
        then show ?thesis using e New.prems(2) by blast
      qed
    qed
    from New.IH[OF New.prems(1) par c New.prems(4)]
    consider "p \<in> vis" | "p = x" | "p \<in> set ?rest" "index_of ?rest p < index_of ?rest c"
      by auto
    then show ?thesis
    proof cases
      case 1
      then show ?thesis by simp
    next
      case 2
      then show ?thesis using False ord by simp
    next
      case 3
      then have "p \<noteq> x" using x_rest by auto
      then show ?thesis using 3 False ord by simp
    qed
  qed
qed

lemma root_nodes_no_parent: "c \<in> set (root_nodes g) \<Longrightarrow> (p, c) \<notin> edges g"
  using adj_subset[of g p] by (auto simp: root_nodes_def edges_def)

lemma edges_finite: "finite (edges g)"
proof -
  have "edges g \<subseteq> {..<length g} \<times> set (concat g)"
    using adj_subset by (auto simp: edges_def adj_def split: if_splits)
  then show ?thesis by (rule finite_subset) simp
qed

text \<open>In a forest the traversal from the roots reaches every node.\<close>

lemma forest_all_reached:
  assumes "acyclic (edges g)" and "x < length g"
  shows "x \<in> from_roots g"
proof (rule ccontr)
  assume "x \<notin> from_roots g"
  then have x: "x \<in> {y. y < length g \<and> y \<notin> from_roots g}" using assms(2) by simp
  have "wf (edges g)"
    using edges_finite assms(1) by (rule finite_acyclic_wf)
  from this x obtain z where z: "z \<in> {y. y < length g \<and> y \<notin> from_roots g}"
    and zmin: "\<And>y. (y, z) \<in> edges g \<Longrightarrow> y \<notin> {y. y < length g \<and> y \<notin> from_roots g}"
    by (rule wfE_min) blast
  have "z \<notin> set (root_nodes g)"
    using z by (auto simp: from_roots_alt)
  then obtain p where p: "(p, z) \<in> edges g" "p < length g"
  proof -
    from \<open>z \<notin> set (root_nodes g)\<close> z have "z \<in> set (concat g)" by (simp add: root_nodes_def)
    then obtain cs where "cs \<in> set g" "z \<in> set cs" by auto
    then obtain i where "i < length g" "g ! i = cs" by (auto simp: in_set_conv_nth)
    then have "(i, z) \<in> edges g" using \<open>z \<in> set cs\<close> by (simp add: edges_def adj_def)
    then show ?thesis using that \<open>i < length g\<close> by blast
  qed
  then have "p \<in> from_roots g" using zmin by blast
  then have "z \<in> from_roots g"
    using p(1) by (auto simp: from_roots_alt intro: rtrancl_into_rtrancl)
  then show False using z by simp
qed

lemma forest_sorted_nodes:
  assumes "acyclic (edges g)"
  shows "sorted_nodes g = dfs_order g (root_nodes g) {}"
proof -
  have "filter (\<lambda>i. i \<notin> from_roots g) [0..<length g] = []"
    using forest_all_reached[OF assms] by (auto simp: filter_empty_conv)
  then show ?thesis by (simp add: sorted_nodes_layout)
qed

lemma forest_sorted_parent_first:
  assumes "forest g" and "(p, c) \<in> edges g" and "c \<in> set (sorted_nodes g)"
  shows "p \<in> set (sorted_nodes g) \<and> index_of (sorted_nodes g) p < index_of (sorted_nodes g) c"
proof -
  have s: "sorted_nodes g = dfs_order g (root_nodes g) {}"
    using assms(1) by (simp add: forest_def forest_sorted_nodes)
  have "\<forall>c\<in>set (root_nodes g). \<forall>p. (p, c) \<in> edges g \<longrightarrow> p \<in> {}"
    using root_nodes_no_parent by blast
  from dfs_order_parent_first[where p = p and c = c, OF _ this] assms show ?thesis
    by (simp add: forest_def s)
qed

lemma ex_enumerate_iff:
  "(\<exists>x\<in>set (enumerate 0 xs). P (fst x) (snd x)) \<longleftrightarrow> (\<exists>i<length xs. P i (xs ! i))"
proof
  assume "\<exists>x\<in>set (enumerate 0 xs). P (fst x) (snd x)"
  then obtain x where "x \<in> set (enumerate 0 xs)" and p: "P (fst x) (snd x)" by blast
  then have "fst x < length xs" "xs ! fst x = snd x" by (simp_all add: in_set_enumerate_eq)
  then show "\<exists>i<length xs. P i (xs ! i)" using p by auto
next
  assume "\<exists>i<length xs. P i (xs ! i)"
  then obtain i where i: "i < length xs" "P i (xs ! i)" by blast
  then have "(i, xs ! i) \<in> set (enumerate 0 xs)" by (simp add: in_set_enumerate_eq)
  then show "\<exists>x\<in>set (enumerate 0 xs). P (fst x) (snd x)" using i(2) by force
qed

lemma adj_node_graph:
  "i < length ns \<Longrightarrow>
     adj (node_graph ns) i = (case children (ns ! i) of None \<Rightarrow> [] | Some cs \<Rightarrow> cs)"
  by (simp add: adj_def node_graph_def)

lemma edges_iff: "(p, c) \<in> edges g \<longleftrightarrow> p < length g \<and> c \<in> set (g ! p)"
  by (simp add: edges_def adj_def)

lemma needs_reorder_nodes_iff:
  "needs_reorder_nodes ns \<longleftrightarrow> (\<exists>p c. (p, c) \<in> edges (node_graph ns) \<and> c < p)"
proof -
  have "needs_reorder_nodes ns
      \<longleftrightarrow> (\<exists>x\<in>set (enumerate 0 ns).
            case children (snd x) of None \<Rightarrow> False | Some cs \<Rightarrow> \<exists>c\<in>set cs. c < fst x)"
    by (simp add: needs_reorder_nodes_def list_ex_iff case_prod_beta split: option.splits)
  also have "\<dots> \<longleftrightarrow> (\<exists>i<length ns.
            case children (ns ! i) of None \<Rightarrow> False | Some cs \<Rightarrow> \<exists>c\<in>set cs. c < i)"
    by (rule ex_enumerate_iff)
  also have "\<dots> \<longleftrightarrow> (\<exists>i<length ns. \<exists>c\<in>set (node_graph ns ! i). c < i)"
  proof -
    have "(case children (ns ! i) of None \<Rightarrow> False | Some cs \<Rightarrow> \<exists>c\<in>set cs. c < i)
        \<longleftrightarrow> (\<exists>c\<in>set (node_graph ns ! i). c < i)" if "i < length ns" for i
      using that by (cases "children (ns ! i)") (simp_all add: node_graph_def)
    then show ?thesis by blast
  qed
  also have "\<dots> \<longleftrightarrow> (\<exists>p c. (p, c) \<in> edges (node_graph ns) \<and> c < p)"
    by (auto simp: edges_iff)
  finally show ?thesis .
qed

lemma index_of_upt0: "c < n \<Longrightarrow> index_of [0..<n] c = c"
  using index_of_nth[of "[0..<n]" c] by simp

lemma rename_node_same:
  assumes "\<And>c cs. children nd = Some cs \<Longrightarrow> c \<in> set cs \<Longrightarrow> f c = c"
  shows "rename_node f nd = nd"
proof (cases "children nd")
  case None
  then show ?thesis by (simp add: rename_node_def)
next
  case (Some cs)
  have "map f cs = cs" by (rule map_idI) (rule assms[OF Some])
  then show ?thesis using Some by (simp add: rename_node_def)
qed

lemma rename_scene_same:
  assumes "\<And>k. k \<in> set (scene_refs sc) \<Longrightarrow> f k = k"
  shows "rename_scene f sc = sc"
proof (cases "scene_nodes sc")
  case None
  then show ?thesis by (simp add: rename_scene_def)
next
  case (Some rs)
  have "map f rs = rs"
    by (rule map_idI) (rule assms, simp add: scene_refs_def opt_list_def Some)
  then show ?thesis using Some by (simp add: rename_scene_def)
qed

lemma rename_skin_same:
  assumes "\<And>k. k \<in> set (skin_refs sk) \<Longrightarrow> f k = k"
  shows "rename_skin f sk = sk"
proof -
  have a: "map_option f (skeleton sk) = skeleton sk"
  proof (cases "skeleton sk")
    case (Some r)
    then have "f r = r" by (intro assms) (simp add: skin_refs_def)
    then show ?thesis using Some by simp
  qed simp
  have b: "map_option (map f) (joints sk) = joints sk"
  proof (cases "joints sk")
    case (Some js)
    have "map f js = js"
      by (rule map_idI) (rule assms, simp add: skin_refs_def opt_list_def Some)
    then show ?thesis using Some by simp
  qed simp
  show ?thesis by (simp add: rename_skin_def a b)
qed

lemma rename_channel_same:
  assumes "\<And>k. k \<in> set (channel_refs ch) \<Longrightarrow> f k = k"
  shows "rename_channel f ch = ch"
proof (cases "target_node ch")
  case None
  then show ?thesis by (simp add: rename_channel_def)
next
  case (Some k)
  then have "f k = k" by (intro assms) (simp add: channel_refs_def)
  then show ?thesis using Some by (simp add: rename_channel_def)
qed

lemma rename_animation_same:
  assumes "\<And>k. k \<in> set (animation_refs an) \<Longrightarrow> f k = k"
  shows "rename_animation f an = an"
proof (cases "channels an")
  case None
  then show ?thesis by (simp add: rename_animation_def)
next
  case (Some cs)
  have "map (rename_channel f) cs = cs"
  proof (rule map_idI, rule rename_channel_same)
    fix ch k assume "ch \<in> set cs" "k \<in> set (channel_refs ch)"
    then have "k \<in> set (animation_refs an)" using Some by (auto simp: animation_refs_def opt_list_def)
    then show "f k = k" by (rule assms)
  qed
  then show ?thesis using Some by (simp add: rename_animation_def)
qed

lemma other_fields_rename_node [simp]: "other_fields (rename_node f nd) = other_fields nd"
  by (simp add: rename_node_def)

lemma children_rename_node [simp]:
  "children (rename_node f nd) = map_option (map f) (children nd)"
  by (simp add: rename_node_def)

lemma mset_map_nth_perm:
  assumes "mset p = mset [0..<length xs]"
  shows "mset (map (\<lambda>i. h (xs ! i)) p) = mset (map h xs)"
proof -
  have "mset (map (\<lambda>i. h (xs ! i)) p) = image_mset (\<lambda>i. h (xs ! i)) (mset [0..<length xs])"
    by (simp only: mset_map assms)
  also have "\<dots> = mset (map (\<lambda>i. h (xs ! i)) [0..<length xs])" by (simp only: mset_map)
  also have "map (\<lambda>i. h (xs ! i)) [0..<length xs] = map h xs"
    by (rule nth_equalityI) simp_all
  finally show ?thesis .
qed

lemma sorted_nodes_mset:
  assumes "set (concat g) \<subseteq> {..<length g}"
  shows "mset (sorted_nodes g) = mset [0..<length g]"
proof -
  have "set (sorted_nodes g) = set [0..<length g]"
    using sorted_nodes_set[OF assms] by (simp add: lessThan_atLeast0)
  then show ?thesis
    by (rule set_eq_iff_mset_eq_distinct[OF sorted_nodes_distinct distinct_upt, THEN iffD1])
qed

lemma nodes_reordered_gltf:
  "nodes d = Some ns \<Longrightarrow>
   nodes (reordered_gltf d)
     = Some (map (\<lambda>old_idx. rename_node (index_of (sorted_nodes (node_graph ns))) (ns ! old_idx))
               (sorted_nodes (node_graph ns)))"
  by (simp add: reordered_gltf_def opt_list_def Let_def)

lemma rename_all_same:
  "map (rename_scene (\<lambda>i. i)) scs = scs" "map (rename_skin (\<lambda>i. i)) sks = sks"
  "map (rename_animation (\<lambda>i. i)) ans = ans"
  by (simp_all add: map_idI rename_scene_same rename_skin_same rename_animation_same)

lemma map_option_same: "(\<And>x. xo = Some x \<Longrightarrow> h x = x) \<Longrightarrow> map_option h xo = xo"
  by (cases xo) simp_all

text \<open>
  Claim C4. The node-order pass never drops a node. For a document whose node indices all
  point into the node list and whose chains of distinct nodes are shorter than the
  recursion allowance, the pass returns; the new node list has the length of the old one
  and is the old one permuted (\<open>p\<close> gives, for each new position, the old index): every
  node keeps what it carries, and only its children are renamed to the new positions.
  If some child has a lower index than its parent, the nodes that no root reaches stand
  at the end, in their original relative order, after the reached ones; otherwise the
  pass leaves the document as it is.
\<close>

theorem node_pass_keeps_every_node:
  assumes ns: "nodes (gltf_data s) = Some ns" and ok: "refs_in_range (gltf_data s)"
    and depth: "chains_below allow (node_graph ns)"
  shows "\<exists>s' ns' p.
      fix_node_hierarchy allow s = Inr s' \<and> nodes (gltf_data s') = Some ns'
    \<and> length ns' = length ns
    \<and> mset p = mset [0..<length ns]
    \<and> ns' = map (\<lambda>old_idx. rename_node (index_of p) (ns ! old_idx)) p
    \<and> mset (map other_fields ns') = mset (map other_fields ns)
    \<and> (if \<exists>q c. (q, c) \<in> edges (node_graph ns) \<and> c < q
        then \<exists>reached. set reached = from_roots (node_graph ns)
            \<and> p = reached @ filter (\<lambda>i. i \<notin> from_roots (node_graph ns)) [0..<length ns]
        else s' = s \<and> p = [0..<length ns])"
proof (cases "needs_reorder_nodes ns")
  case True
  define g where "g = node_graph ns"
  define p where "p = sorted_nodes g"
  define ns' where "ns' = map (\<lambda>old_idx. rename_node (index_of p) (ns ! old_idx)) p"
  have low: "\<exists>q c. (q, c) \<in> edges (node_graph ns) \<and> c < q"
    unfolding needs_reorder_nodes_iff[symmetric] by (rule True)
  have rng: "set (concat g) \<subseteq> {..<length g}"
    using refs_in_range_children[OF ok ns] by (simp add: g_def)
  have len: "length g = length ns" by (simp add: g_def)
  have perm: "mset p = mset [0..<length ns]"
    using sorted_nodes_mset[OF rng] by (simp only: p_def len)
  have 1: "fix_node_hierarchy allow s
      = Inr (s\<lparr>gltf_data := reordered_gltf (gltf_data s), reordered := True\<rparr>)"
    by (rule fix_node_hierarchy_reorders[OF ns True ok depth])
  have 2: "nodes (gltf_data (s\<lparr>gltf_data := reordered_gltf (gltf_data s), reordered := True\<rparr>))
      = Some ns'"
    using nodes_reordered_gltf[OF ns] by (simp add: ns'_def p_def g_def)
  have 3: "length ns' = length ns"
    using sorted_nodes_length[OF rng] by (simp add: ns'_def p_def len)
  have 4: "mset (map other_fields ns') = mset (map other_fields ns)"
    using mset_map_nth_perm[OF perm, of other_fields] by (simp add: ns'_def comp_def)
  have 5: "set (dfs_order g (root_nodes g) {}) = from_roots (node_graph ns)"
    by (simp add: dfs_order_roots g_def)
  have 6: "p = dfs_order g (root_nodes g) {}
      @ filter (\<lambda>i. i \<notin> from_roots (node_graph ns)) [0..<length ns]"
    using sorted_nodes_layout[of g] by (simp add: p_def g_def)
  have 7: "\<exists>reached. set reached = from_roots (node_graph ns)
      \<and> p = reached @ filter (\<lambda>i. i \<notin> from_roots (node_graph ns)) [0..<length ns]"
    using 5 6 by blast
  have 8: "if \<exists>q c. (q, c) \<in> edges (node_graph ns) \<and> c < q
        then \<exists>reached. set reached = from_roots (node_graph ns)
            \<and> p = reached @ filter (\<lambda>i. i \<notin> from_roots (node_graph ns)) [0..<length ns]
        else s\<lparr>gltf_data := reordered_gltf (gltf_data s), reordered := True\<rparr> = s
            \<and> p = [0..<length ns]"
    using 7 by (simp only: low if_True)
  show ?thesis
    by (intro exI[of _ "s\<lparr>gltf_data := reordered_gltf (gltf_data s), reordered := True\<rparr>"]
        exI[of _ ns'] exI[of _ p] conjI 1 2 3 perm 4 8 ns'_def)
next
  case False
  have low: "\<not> (\<exists>q c. (q, c) \<in> edges (node_graph ns) \<and> c < q)"
    unfolding needs_reorder_nodes_iff[symmetric] by (rule False)
  have rng: "set (concat (node_graph ns)) \<subseteq> {..<length ns}"
    by (rule refs_in_range_children[OF ok ns])
  have 1: "fix_node_hierarchy allow s = Inr s"
    using ns False by (simp add: fix_node_hierarchy_def)
  have "rename_node (index_of [0..<length ns]) (ns ! i) = ns ! i" if "i < length ns" for i
  proof (rule rename_node_same)
    fix c cs assume cs: "children (ns ! i) = Some cs" and c: "c \<in> set cs"
    have "ns ! i \<in> set ns" using that by simp
    from node_graph_children[OF this cs] c rng have "c < length ns" by auto
    then show "index_of [0..<length ns] c = c" by (rule index_of_upt0)
  qed
  then have 2: "ns = map (\<lambda>old_idx. rename_node (index_of [0..<length ns]) (ns ! old_idx))
      [0..<length ns]"
    by (intro nth_equalityI) simp_all
  have 3: "if \<exists>q c. (q, c) \<in> edges (node_graph ns) \<and> c < q
        then \<exists>reached. set reached = from_roots (node_graph ns)
            \<and> [0..<length ns]
                = reached @ filter (\<lambda>i. i \<notin> from_roots (node_graph ns)) [0..<length ns]
        else s = s \<and> [0..<length ns] = [0..<length ns]"
    by (simp only: low if_False simp_thms)
  show ?thesis
    by (intro exI[of _ s] exI[of _ ns] exI[of _ "[0..<length ns]"] conjI 1 ns 2 3) simp_all
qed

lemma cyclic_refs: "refs_in_range (gltf_data cyclic_fixer)"
  by (simp add: cyclic_fixer_def cyclic_nodes_def refs_in_range_def node_refs_def opt_list_def
      node_graph_def scene_refs_def)

lemma cyclic_depth: "chains_below 100 (node_graph cyclic_nodes)"
  by (rule chains_below_if) (simp add: node_graph_def cyclic_nodes_def)

lemma cyclic_from_roots: "from_roots (node_graph cyclic_nodes) = {1}"
proof -
  have "from_roots (node_graph cyclic_nodes)
      = set (dfs_order (node_graph cyclic_nodes) (root_nodes (node_graph cyclic_nodes)) {})"
    by (simp only: dfs_order_roots)
  also have "\<dots> = {1}"
    by (simp add: dfs_order_Cons node_graph_def cyclic_nodes_def root_nodes_def adj_def)
  finally show ?thesis .
qed

text \<open>
  The spec's list with a cycle, where the pass reorders: node 1, the only root, comes
  first, and nodes 0 and 2, which no root reaches, follow in their old order.
\<close>

theorem node_pass_keeps_every_node_witness:
  "\<exists>s'. fix_node_hierarchy 100 cyclic_fixer = Inr s'
    \<and> nodes (gltf_data s')
        = Some [\<lparr>children = None, other_fields = ''b''\<rparr>,
                \<lparr>children = Some [2], other_fields = ''a''\<rparr>,
                \<lparr>children = Some [1], other_fields = ''c''\<rparr>]"
proof -
  have 1: "nodes (gltf_data cyclic_fixer) = Some cyclic_nodes"
    by (simp add: cyclic_fixer_def)
  have "(2, 0) \<in> edges (node_graph cyclic_nodes)"
    by (simp add: edges_iff node_graph_def cyclic_nodes_def)
  then have low: "\<exists>q c. (q, c) \<in> edges (node_graph cyclic_nodes) \<and> c < q" by force
  from node_pass_keeps_every_node[OF 1 cyclic_refs cyclic_depth]
  obtain s' ns' p reached where r: "fix_node_hierarchy 100 cyclic_fixer = Inr s'"
    and n: "nodes (gltf_data s') = Some ns'"
    and perm: "mset p = mset [0..<length cyclic_nodes]"
    and ns': "ns' = map (\<lambda>old_idx. rename_node (index_of p) (cyclic_nodes ! old_idx)) p"
    and reached: "set reached = {1}"
    and p: "p = reached @ filter (\<lambda>i. i \<notin> {1 :: nat}) [0..<length cyclic_nodes]"
    unfolding cyclic_from_roots using low by (simp only: if_True) blast
  have f: "filter (\<lambda>i. i \<notin> {1 :: nat}) [0..<length cyclic_nodes] = [0, 2]"
    by (simp add: cyclic_nodes_def upt_rec)
  have "length p = 3" using mset_eq_length[OF perm] by (simp add: cyclic_nodes_def)
  then have "length reached = 1" using p f by simp
  then obtain x where "reached = [x]" by (cases reached) simp_all
  then have "reached = [1]" using reached by simp
  then have "p = [1, 0, 2]" using p f by simp
  then have "ns' = [\<lparr>children = None, other_fields = ''b''\<rparr>,
                \<lparr>children = Some [2], other_fields = ''a''\<rparr>,
                \<lparr>children = Some [1], other_fields = ''c''\<rparr>]"
    by (simp add: ns' cyclic_nodes_def rename_node_def)
  then show ?thesis using r n by simp
qed

text \<open>
  A node that is its own child is no root and no root reaches it, but it does not have a
  lower index than its parent, so the pass does not reorder: the list stays as it is, with
  the unreachable node 0 before the root 1 and not at the end.
\<close>

theorem node_pass_unreachable_first_counterexample:
  "fix_node_hierarchy 100 self_child_fixer = Inr self_child_fixer
   \<and> nodes (gltf_data self_child_fixer)
       = Some [\<lparr>children = Some [0], other_fields = ''a''\<rparr>,
               \<lparr>children = None, other_fields = ''b''\<rparr>]
   \<and> from_roots (node_graph [\<lparr>children = Some [0], other_fields = ''a''\<rparr>,
                              \<lparr>children = None, other_fields = ''b''\<rparr>]) = {1}"
proof -
  let ?ns = "[\<lparr>children = Some [0], other_fields = ''a''\<rparr>,
              \<lparr>children = None, other_fields = ''b''\<rparr>]"
  have "from_roots (node_graph ?ns)
      = set (dfs_order (node_graph ?ns) (root_nodes (node_graph ?ns)) {})"
    by (simp only: dfs_order_roots)
  also have "\<dots> = {1}"
    by (simp add: dfs_order_Cons node_graph_def root_nodes_def adj_def)
  finally have "from_roots (node_graph ?ns) = {1}" .
  then show ?thesis
    by (simp add: fix_node_hierarchy_def self_child_fixer_def needs_reorder_nodes_def)
qed

lemma cyclic_fixer_result:
  "fix_node_hierarchy 100 cyclic_fixer
     = Inr \<lparr>gltf_data =
              \<lparr>nodes = Some [\<lparr>children = None, other_fields = ''b''\<rparr>,
                             \<lparr>children = Some [2], other_fields = ''a''\<rparr>,
                             \<lparr>children = Some [1], other_fields = ''c''\<rparr>],
               scenes = Some [\<lparr>scene_nodes = Some [0]\<rparr>], skins = None, animations = None\<rparr>,
            reordered = True\<rparr>"
  by (simp add: fix_node_hierarchy_def cyclic_fixer_def cyclic_nodes_def needs_reorder_nodes_def
      topological_sort_nodes_def node_graph_def root_nodes_def adj_def index_mapping_of_def
      list_getitem_def remap_node_def remap_list_def dict_getitem_def mapE_opt_def
      remap_scene_def dfs_pos Let_def)

lemma node_graph_renamed:
  assumes "k < length srt"
  shows "node_graph (map (\<lambda>old_idx. rename_node f (ns ! old_idx)) srt) ! k
      = map f (case children (ns ! (srt ! k)) of None \<Rightarrow> [] | Some cs \<Rightarrow> cs)"
  using assms by (cases "children (ns ! (srt ! k))") (simp_all add: node_graph_def)

lemma index_of_bij:
  assumes "distinct srt" and "set srt = {..<n}"
  shows "bij_betw (index_of srt) {..<n} {..<n}"
proof -
  have len: "length srt = n" using distinct_card[OF assms(1)] assms(2) by simp
  have inj: "inj_on (index_of srt) {..<n}"
  proof (rule inj_onI)
    fix x y assume "x \<in> {..<n}" "y \<in> {..<n}" and eq: "index_of srt x = index_of srt y"
    then have "x \<in> set srt" "y \<in> set srt" by (simp_all add: assms(2))
    then show "x = y" using eq by (rule index_of_inj)
  qed
  have "index_of srt ` {..<n} = {..<n}"
  proof (rule set_eqI)
    fix k show "k \<in> index_of srt ` {..<n} \<longleftrightarrow> k \<in> {..<n}"
    proof
      assume "k \<in> index_of srt ` {..<n}"
      then obtain x where "x \<in> set srt" "k = index_of srt x" using assms(2) by auto
      then show "k \<in> {..<n}" using index_of_less[of x srt] len by simp
    next
      assume "k \<in> {..<n}"
      then have k: "k < length srt" using len by simp
      then have "index_of srt (srt ! k) = k" using assms(1) by (simp add: index_of_nth)
      moreover have "srt ! k \<in> set srt" using k by simp
      ultimately show "k \<in> index_of srt ` {..<n}" using assms(2) by (metis imageI)
    qed
  qed
  then show ?thesis using inj by (simp add: bij_betw_def)
qed

text \<open>
  Claim C3. After the node-order pass every parent stands before its children, and every
  reference to a node is rewritten through one mapping. The spec's data model has the nodes
  form a forest: no node is the child of two nodes and no node is its own descendant. For
  such a document, with all node indices pointing into the node list and every chain of
  distinct nodes shorter than the recursion allowance, the pass returns a document in
  which every edge goes from a lower to a higher index; \<open>f\<close> is the mapping
  from old to new indices (the identity when nothing had to move): it is a bijection on the
  indices, the node of old index \<open>i\<close> is found at \<open>f i\<close> with its children renamed by
  \<open>f\<close>, and the scenes' root lists, the skins' skeletons and joint lists and the animation
  channels' target nodes are renamed by the same \<open>f\<close>.
\<close>

theorem node_pass_orders_parents_first:
  assumes ns: "nodes (gltf_data s) = Some ns" and ok: "refs_in_range (gltf_data s)"
    and forest: "forest (node_graph ns)"
    and depth: "chains_below allow (node_graph ns)"
  shows "\<exists>s' ns' f.
      fix_node_hierarchy allow s = Inr s' \<and> nodes (gltf_data s') = Some ns'
    \<and> (\<forall>p c. (p, c) \<in> edges (node_graph ns') \<longrightarrow> p < c)
    \<and> length ns' = length ns
    \<and> bij_betw f {..<length ns} {..<length ns}
    \<and> (\<forall>i<length ns. ns' ! f i = rename_node f (ns ! i))
    \<and> scenes (gltf_data s') = map_option (map (rename_scene f)) (scenes (gltf_data s))
    \<and> skins (gltf_data s') = map_option (map (rename_skin f)) (skins (gltf_data s))
    \<and> animations (gltf_data s') = map_option (map (rename_animation f)) (animations (gltf_data s))"
proof (cases "needs_reorder_nodes ns")
  case True
  define g where "g = node_graph ns"
  define srt where "srt = sorted_nodes g"
  define f where "f = index_of srt"
  define ns' where "ns' = map (\<lambda>old_idx. rename_node f (ns ! old_idx)) srt"
  define s' where "s' = s\<lparr>gltf_data := reordered_gltf (gltf_data s), reordered := True\<rparr>"
  have rng: "set (concat g) \<subseteq> {..<length g}"
    using refs_in_range_children[OF ok ns] by (simp add: g_def)
  have len: "length g = length ns" by (simp add: g_def)
  have dist: "distinct srt" by (simp add: srt_def sorted_nodes_distinct)
  have srt_set: "set srt = {..<length ns}"
    using sorted_nodes_set[OF rng] by (simp add: srt_def len)
  have srt_len: "length srt = length ns"
    using sorted_nodes_length[OF rng] by (simp add: srt_def len)
  have 1: "fix_node_hierarchy allow s = Inr s'"
    unfolding s'_def by (rule fix_node_hierarchy_reorders[OF ns True ok depth])
  have 2: "nodes (gltf_data s') = Some ns'"
    using nodes_reordered_gltf[OF ns] by (simp add: s'_def ns'_def f_def srt_def g_def)
  have 3: "p < c" if e: "(p, c) \<in> edges (node_graph ns')" for p c
  proof -
    from e have p: "p < length srt" and c: "c \<in> set (node_graph ns' ! p)"
      by (simp_all add: edges_iff ns'_def)
    let ?q = "srt ! p"
    have q: "?q < length ns" using p srt_set nth_mem by blast
    have gq: "g ! ?q = (case children (ns ! ?q) of None \<Rightarrow> [] | Some cs \<Rightarrow> cs)"
      using q by (simp add: g_def node_graph_def)
    have "node_graph ns' ! p = map f (g ! ?q)"
      using node_graph_renamed[OF p, of f ns] gq by (simp add: ns'_def)
    then have "c \<in> f ` set (g ! ?q)" using c by simp
    then obtain c0 where c0: "c0 \<in> set (g ! ?q)" and cc: "c = f c0" by blast
    have e0: "(?q, c0) \<in> edges g" using q c0 by (simp add: edges_iff len)
    have "g ! ?q \<in> set g" using q len by simp
    then have "c0 \<in> set (concat g)" using c0 by auto
    then have "c0 < length ns" using rng len by auto
    then have "c0 \<in> set (sorted_nodes g)" using srt_set by (simp add: srt_def)
    from forest_sorted_parent_first[OF _ e0 this] forest
    have "index_of srt ?q < index_of srt c0" by (simp add: g_def srt_def)
    then show ?thesis using index_of_nth[OF dist p] by (simp add: cc f_def)
  qed
  have 4: "length ns' = length ns" by (simp add: ns'_def srt_len)
  have 5: "bij_betw f {..<length ns} {..<length ns}"
    unfolding f_def by (rule index_of_bij[OF dist srt_set])
  have 6: "ns' ! f i = rename_node f (ns ! i)" if "i < length ns" for i
  proof -
    have i: "i \<in> set srt" using that srt_set by simp
    then have "f i < length srt" by (simp add: f_def index_of_less)
    then have "ns' ! f i = rename_node f (ns ! (srt ! f i))" by (simp add: ns'_def)
    then show ?thesis using nth_index_of[OF i] by (simp add: f_def)
  qed
  have 7: "scenes (gltf_data s') = map_option (map (rename_scene f)) (scenes (gltf_data s))"
    "skins (gltf_data s') = map_option (map (rename_skin f)) (skins (gltf_data s))"
    "animations (gltf_data s') = map_option (map (rename_animation f)) (animations (gltf_data s))"
    using ns by (simp_all add: s'_def reordered_gltf_def Let_def opt_list_def f_def srt_def g_def)
  have e3: "\<forall>p c. (p, c) \<in> edges (node_graph ns') \<longrightarrow> p < c" using 3 by blast
  have e6: "\<forall>i<length ns. ns' ! f i = rename_node f (ns ! i)" using 6 by blast
  show ?thesis
    by (intro exI[of _ s'] exI[of _ ns'] exI[of _ f] conjI; fact)
next
  case False
  have 1: "fix_node_hierarchy allow s = Inr s"
    using ns False by (simp add: fix_node_hierarchy_def)
  have 3: "p < c" if e: "(p, c) \<in> edges (node_graph ns)" for p c
  proof -
    have "\<not> c < p" using False e by (auto simp: needs_reorder_nodes_iff)
    moreover have "p \<noteq> c"
    proof
      assume "p = c"
      then have "(c, c) \<in> (edges (node_graph ns))\<^sup>+" using e by auto
      then show False using forest by (auto simp: forest_def acyclic_def)
    qed
    ultimately show ?thesis by simp
  qed
  have 6: "\<forall>i<length ns. ns ! (\<lambda>i. i) i = rename_node (\<lambda>i. i) (ns ! i)"
    by (simp add: rename_node_same)
  have 7: "scenes (gltf_data s) = map_option (map (rename_scene (\<lambda>i. i))) (scenes (gltf_data s))"
    "skins (gltf_data s) = map_option (map (rename_skin (\<lambda>i. i))) (skins (gltf_data s))"
    "animations (gltf_data s)
       = map_option (map (rename_animation (\<lambda>i. i))) (animations (gltf_data s))"
    by (simp_all add: rename_all_same map_option_same)
  have 5: "bij_betw (\<lambda>i. i) {..<length ns} {..<length ns}"
    by (simp add: bij_betw_def)
  have e3: "\<forall>p c. (p, c) \<in> edges (node_graph ns) \<longrightarrow> p < c" using 3 by blast
  have 4: "length ns = length ns" by simp
  show ?thesis
    by (intro exI[of _ s] exI[of _ ns] exI[of _ "\<lambda>i. i"] conjI; fact)
qed

lemma acyclic_if_child_lower:
  assumes "\<And>p c. (p, c) \<in> r \<Longrightarrow> c < (p :: nat)"
  shows "acyclic r"
proof -
  have "r\<inverse> \<subseteq> measure (\<lambda>x. x)" using assms by auto
  then have "wf (r\<inverse>)" by (rule wf_subset[OF wf_measure])
  then have "acyclic (r\<inverse>)" by (rule wf_acyclic)
  then show ?thesis by (simp only: acyclic_converse)
qed

lemma arm_edges: "(p, c) \<in> edges (node_graph arm_nodes) \<longleftrightarrow> (p = 1 \<and> c = 0) \<or> (p = 2 \<and> c = 1)"
  by (auto simp: edges_iff arm_nodes_def node_graph_def nth_Cons' split: if_splits)

lemma arm_forest: "forest (node_graph arm_nodes)"
proof -
  have "acyclic (edges (node_graph arm_nodes))"
    by (rule acyclic_if_child_lower) (auto simp: arm_edges)
  then show ?thesis by (auto simp: forest_def arm_edges)
qed

lemma arm_refs: "refs_in_range (gltf_data arm_fixer)"
  by (simp add: arm_fixer_def arm_nodes_def refs_in_range_def node_refs_def opt_list_def
      node_graph_def scene_refs_def skin_refs_def animation_refs_def channel_refs_def)

lemma arm_depth: "chains_below 100 (node_graph arm_nodes)"
  by (rule chains_below_if) (simp add: node_graph_def arm_nodes_def)

lemma arm_fixer_result:
  "fix_node_hierarchy 100 arm_fixer
     = Inr \<lparr>gltf_data =
              \<lparr>nodes = Some [\<lparr>children = Some [1], other_fields = ''body''\<rparr>,
                             \<lparr>children = Some [2], other_fields = ''arm''\<rparr>,
                             \<lparr>children = None, other_fields = ''hand''\<rparr>],
               scenes = Some [\<lparr>scene_nodes = Some [0]\<rparr>],
               skins = Some [\<lparr>skeleton = Some 0, joints = Some [2, 1, 0]\<rparr>],
               animations = Some [\<lparr>channels = Some [\<lparr>target_node = Some 2\<rparr>]\<rparr>]\<rparr>,
            reordered = True\<rparr>"
  by (simp add: fix_node_hierarchy_def arm_fixer_def arm_nodes_def needs_reorder_nodes_def
      topological_sort_nodes_def node_graph_def root_nodes_def adj_def index_mapping_of_def
      list_getitem_def remap_node_def remap_list_def dict_getitem_def mapE_opt_def
      remap_scene_def remap_skin_def remap_animation_def remap_channel_def dfs_pos Let_def)

text \<open>
  With three nested calls the sort of this chain of three returns; with two the call for
  the third node is refused and the pass raises.
\<close>

lemma arm_fixer_shallow: "fix_node_hierarchy 2 arm_fixer = Inl RecursionError"
  by (simp add: fix_node_hierarchy_def arm_fixer_def arm_nodes_def needs_reorder_nodes_def
      topological_sort_nodes_def node_graph_def root_nodes_def adj_def dfs_pos Let_def)

theorem node_pass_orders_parents_first_witness:
  "nodes (gltf_data arm_fixer) = Some arm_nodes \<and> refs_in_range (gltf_data arm_fixer)
   \<and> forest (node_graph arm_nodes) \<and> chains_below 100 (node_graph arm_nodes)
   \<and> needs_reorder_nodes arm_nodes
   \<and> fix_node_hierarchy 100 arm_fixer
     = Inr \<lparr>gltf_data =
              \<lparr>nodes = Some [\<lparr>children = Some [1], other_fields = ''body''\<rparr>,
                             \<lparr>children = Some [2], other_fields = ''arm''\<rparr>,
                             \<lparr>children = None, other_fields = ''hand''\<rparr>],
               scenes = Some [\<lparr>scene_nodes = Some [0]\<rparr>],
               skins = Some [\<lparr>skeleton = Some 0, joints = Some [2, 1, 0]\<rparr>],
               animations = Some [\<lparr>channels = Some [\<lparr>target_node = Some 2\<rparr>]\<rparr>]\<rparr>,
            reordered = True\<rparr>
   \<and> (\<exists>s' ns' f.
      fix_node_hierarchy 100 arm_fixer = Inr s' \<and> nodes (gltf_data s') = Some ns'
    \<and> (\<forall>p c. (p, c) \<in> edges (node_graph ns') \<longrightarrow> p < c)
    \<and> length ns' = length arm_nodes
    \<and> bij_betw f {..<length arm_nodes} {..<length arm_nodes}
    \<and> (\<forall>i<length arm_nodes. ns' ! f i = rename_node f (arm_nodes ! i))
    \<and> scenes (gltf_data s') = map_option (map (rename_scene f)) (scenes (gltf_data arm_fixer))
    \<and> skins (gltf_data s') = map_option (map (rename_skin f)) (skins (gltf_data arm_fixer))
    \<and> animations (gltf_data s')
        = map_option (map (rename_animation f)) (animations (gltf_data arm_fixer)))"
proof -
  have 1: "nodes (gltf_data arm_fixer) = Some arm_nodes" by (simp add: arm_fixer_def)
  have 2: "needs_reorder_nodes arm_nodes"
    by (simp add: needs_reorder_nodes_def arm_nodes_def)
  show ?thesis
    by (intro conjI 1 2 arm_refs arm_forest arm_depth arm_fixer_result
        node_pass_orders_parents_first[OF 1 arm_refs arm_forest arm_depth])
qed

lemma shared_child_fixer_result:
  "fix_node_hierarchy 100 shared_child_fixer
     = Inr \<lparr>gltf_data =
              \<lparr>nodes = Some [\<lparr>children = Some [1, 2], other_fields = ''a''\<rparr>,
                             \<lparr>children = None, other_fields = ''b''\<rparr>,
                             \<lparr>children = Some [1], other_fields = ''c''\<rparr>],
               scenes = None, skins = None, animations = None\<rparr>,
            reordered = True\<rparr>"
  by (simp add: fix_node_hierarchy_def shared_child_fixer_def needs_reorder_nodes_def
      topological_sort_nodes_def node_graph_def root_nodes_def adj_def index_mapping_of_def
      list_getitem_def remap_node_def remap_list_def dict_getitem_def mapE_opt_def dfs_pos Let_def)

text \<open>
  The order can fail where the nodes do not form a forest. In the first document node 2 is
  a child of node 1 and both have node 0 as a child (no cycle); in the second, the spec's
  own scenario, nodes 0 and 2 are each other's child. In both results node 2 has the
  child 1.
\<close>

theorem node_pass_order_counterexample:
  "fix_node_hierarchy 100 shared_child_fixer
     = Inr \<lparr>gltf_data =
              \<lparr>nodes = Some [\<lparr>children = Some [1, 2], other_fields = ''a''\<rparr>,
                             \<lparr>children = None, other_fields = ''b''\<rparr>,
                             \<lparr>children = Some [1], other_fields = ''c''\<rparr>],
               scenes = None, skins = None, animations = None\<rparr>,
            reordered = True\<rparr>
   \<and> (2, 1) \<in> edges (node_graph [\<lparr>children = Some [1, 2], other_fields = ''a''\<rparr>,
                                  \<lparr>children = None, other_fields = ''b''\<rparr>,
                                  \<lparr>children = Some [1], other_fields = ''c''\<rparr>])
   \<and> fix_node_hierarchy 100 cyclic_fixer
     = Inr \<lparr>gltf_data =
              \<lparr>nodes = Some [\<lparr>children = None, other_fields = ''b''\<rparr>,
                             \<lparr>children = Some [2], other_fields = ''a''\<rparr>,
                             \<lparr>children = Some [1], other_fields = ''c''\<rparr>],
               scenes = Some [\<lparr>scene_nodes = Some [0]\<rparr>], skins = None, animations = None\<rparr>,
            reordered = True\<rparr>
   \<and> (2, 1) \<in> edges (node_graph [\<lparr>children = None, other_fields = ''b''\<rparr>,
                                  \<lparr>children = Some [2], other_fields = ''a''\<rparr>,
                                  \<lparr>children = Some [1], other_fields = ''c''\<rparr>])"
  by (simp add: shared_child_fixer_result cyclic_fixer_result edges_iff node_graph_def)

lemma mapE_Inr_iff: "mapE f xs = Inr ys \<longleftrightarrow> list_all2 (\<lambda>x y. f x = Inr y) xs ys"
proof (induction xs arbitrary: ys)
  case Nil
  then show ?case by auto
next
  case (Cons x xs)
  show ?case
  proof (cases "f x")
    case (Inl e)
    then show ?thesis by (auto simp: list_all2_Cons1)
  next
    case (Inr y)
    show ?thesis
    proof (cases "mapE f xs")
      case (Inl e)
      then have "\<not> list_all2 (\<lambda>x y. f x = Inr y) xs zs" for zs using Cons.IH[of zs] by simp
      then show ?thesis using Inl Inr by (auto simp: list_all2_Cons1)
    next
      case r: (Inr zs)
      then have "list_all2 (\<lambda>x y. f x = Inr y) xs zs' \<longleftrightarrow> zs' = zs" for zs'
        using Cons.IH[of zs'] by auto
      then show ?thesis using r Inr by (auto simp: list_all2_Cons1)
    qed
  qed
qed

text \<open>The part of a traversal that one start node contributes.\<close>

lemma dfs_order_Cons_split:
  "dfs_order g (x # pending) vis
     = dfs_order g [x] vis @ dfs_order g pending (vis \<union> set (dfs_order g [x] vis))"
  using dfs_order_append[of g "[x]" pending vis] by simp

lemma dfs_order_single:
  "dfs_order g [x] vis = (if x \<in> vis then [] else x # dfs_order g (adj g x) (insert x vis))"
  by (simp add: dfs_order_Cons)

text \<open>
  Start nodes that are nobody's child (\<open>R\<close>) come out in the order in which they were
  given, and starting again from them alone gives the same traversal.
\<close>

lemma dfs_order_restart:
  assumes R: "\<And>x. R x \<Longrightarrow> x \<notin> set (concat g)" and all: "\<forall>x\<in>set stack. R x"
  shows "dfs_order g (filter R (dfs_order g stack vis)) vis = dfs_order g stack vis"
  using all
proof (induction stack arbitrary: vis)
  case Nil
  then show ?case by simp
next
  case (Cons x stack)
  let ?a = "dfs_order g [x] vis"
  let ?b = "dfs_order g stack (vis \<union> set ?a)"
  have split: "dfs_order g (x # stack) vis = ?a @ ?b" by (rule dfs_order_Cons_split)
  have IH: "dfs_order g (filter R ?b) (vis \<union> set ?a) = ?b"
    using Cons.IH[of "vis \<union> set ?a"] Cons.prems by simp
  show ?case
  proof (cases "x \<in> vis")
    case True
    then have "?a = []" by (simp add: dfs_order_single)
    then show ?thesis using IH split by simp
  next
    case False
    let ?c = "dfs_order g (adj g x) (insert x vis)"
    have a: "?a = x # ?c" using False by (simp add: dfs_order_single)
    have "set ?c \<subseteq> set (concat g)"
      using dfs_order_subset[of g "adj g x" "insert x vis"] adj_subset[of g x] by auto
    then have noR: "filter R ?c = []" using R by (auto simp: filter_empty_conv)
    have Rx: "R x" using Cons.prems by simp
    have "filter R (dfs_order g (x # stack) vis) = x # filter R ?b"
      using split a noR Rx by simp
    then have "dfs_order g (filter R (dfs_order g (x # stack) vis)) vis
        = dfs_order g (x # filter R ?b) vis" by simp
    also have "\<dots> = ?a @ dfs_order g (filter R ?b) (vis \<union> set ?a)"
      by (rule dfs_order_Cons_split)
    also have "\<dots> = ?a @ ?b" by (simp only: IH)
    finally show ?thesis using split by simp
  qed
qed

lemma joints_in_range_iff: "list_ex (\<lambda>j. length ns \<le> j) js \<longleftrightarrow> \<not> joints_in_range js ns"
  by (induction js) (auto simp: joints_in_range_def)

lemma topological_sort_joints_unfold:
  "topological_sort_joints allow js ns =
     (if \<not> joints_in_range js ns then Inl IndexError
      else case dfs_children allow (joint_graph js ns) (root_joints js (joint_graph js ns)) ({}, []) of
             Inl e \<Rightarrow> Inl e
           | Inr (visited, reached) \<Rightarrow> Inr (reached @ filter (\<lambda>j. j \<notin> visited) js))"
  by (simp only: topological_sort_joints_def joints_in_range_iff root_joints_def Let_def)

lemma topological_sort_joints_Inr:
  assumes "topological_sort_joints allow js ns = Inr out"
  shows "joints_in_range js ns \<and> out = sorted_joints js ns"
proof -
  let ?g = "joint_graph js ns"
  have rng: "joints_in_range js ns"
    using assms by (simp add: topological_sort_joints_unfold split: if_splits)
  with assms obtain st where st: "dfs_children allow ?g (root_joints js ?g) ({}, []) = Inr st"
    by (cases "dfs_children allow ?g (root_joints js ?g) ({}, [])")
      (simp_all add: topological_sort_joints_unfold)
  have "st = traverse ?g (root_joints js ?g) ({}, [])" by (rule dfs_traverse(2)[OF st])
  then have "st = (set (dfs_order ?g (root_joints js ?g) {}), dfs_order ?g (root_joints js ?g) {})"
    by (simp add: dfs_split)
  then have "out = sorted_joints js ns"
    using assms st rng
    by (simp add: topological_sort_joints_unfold sorted_joints_def Let_def)
  then show ?thesis using rng by simp
qed

lemma topological_sort_joints_eq:
  assumes "chains_below allow (joint_graph js ns)"
  shows "topological_sort_joints allow js ns
     = (if joints_in_range js ns then Inr (sorted_joints js ns) else Inl IndexError)"
  by (simp add: topological_sort_joints_unfold dfs_children_roots[OF assms] sorted_joints_def
      dfs_split Let_def)

lemma joint_graph_cong: "set js = set js' \<Longrightarrow> joint_graph js ns = joint_graph js' ns"
  by (simp add: joint_graph_def joint_children_of_def)

lemma joint_graph_subset: "set (concat (joint_graph js ns)) \<subseteq> set js"
  by (auto simp: joint_graph_def joint_children_of_def)

lemma sorted_joints_set: "set (sorted_joints js ns) = set js"
proof -
  let ?g = "joint_graph js ns"
  have "set (dfs_order ?g (root_joints js ?g) {}) \<subseteq> set js"
    using dfs_order_subset[of ?g "root_joints js ?g" "{}"] joint_graph_subset[of js ns]
    by (auto simp: root_joints_def)
  then show ?thesis by (auto simp: sorted_joints_def Let_def)
qed

lemma sorted_joints_idem: "sorted_joints (sorted_joints js ns) ns = sorted_joints js ns"
proof -
  let ?g = "joint_graph js ns"
  let ?R = "\<lambda>j. j \<notin> set (concat ?g)"
  let ?d = "dfs_order ?g (root_joints js ?g) {}"
  let ?l = "filter (\<lambda>j. j \<notin> set ?d) js"
  have sj: "sorted_joints js ns = ?d @ ?l" by (simp add: sorted_joints_def Let_def)
  have g': "joint_graph (sorted_joints js ns) ns = ?g"
    by (rule joint_graph_cong) (rule sorted_joints_set)
  have "set (root_joints js ?g) \<subseteq> set ?d"
    using dfs_order_covers[of "root_joints js ?g" "{}" ?g] by simp
  then have "filter ?R ?l = []" by (auto simp: filter_empty_conv root_joints_def)
  then have r': "root_joints (sorted_joints js ns) ?g = filter ?R ?d"
    by (simp add: root_joints_def sj)
  have d': "dfs_order ?g (filter ?R ?d) {} = ?d"
    by (rule dfs_order_restart) (simp_all add: root_joints_def)
  have "filter (\<lambda>j. j \<notin> set ?d) (?d @ ?l) = ?l" by (simp add: filter_empty_conv)
  then show ?thesis
    unfolding sorted_joints_def[of "sorted_joints js ns"] g' Let_def r' d'
    by (simp add: sj)
qed

lemma joints_in_range_sorted:
  "joints_in_range (sorted_joints js ns) ns = joints_in_range js ns"
  by (simp add: joints_in_range_def list_all_iff sorted_joints_set)

lemma mapE_Inl:
  assumes "x \<in> set xs" and "f x = Inl e" and only: "\<And>y e'. f y = Inl e' \<Longrightarrow> e' = e"
  shows "mapE f xs = Inl e"
  using assms(1)
proof (induction xs)
  case Nil
  then show ?case by simp
next
  case (Cons a xs)
  show ?case
  proof (cases "f a")
    case (Inl e')
    then show ?thesis using only[OF Inl] by simp
  next
    case (Inr b)
    then have "x \<noteq> a" using assms(2) by auto
    then have "mapE f xs = Inl e" using Cons by simp
    then show ?thesis using Inr by simp
  qed
qed

lemma needs_reorder_joints_cases:
  "needs_reorder_joints js ns = Inl IndexError \<and> \<not> joints_in_range js ns
   \<or> (\<exists>b. needs_reorder_joints js ns = Inr b \<and> joints_in_range js ns)"
proof (cases "joints_in_range js ns")
  case True
  have "\<exists>b. joint_misplaced js ns x = Inr b" if "x \<in> set (enumerate 0 js)" for x
  proof -
    from that have "fst x < length js" "js ! fst x = snd x"
      by (simp_all add: in_set_enumerate_eq)
    then have "snd x \<in> set js" using nth_mem[of "fst x" js] by simp
    then have "snd x < length ns" using True by (simp add: joints_in_range_def list_all_iff)
    then show ?thesis by (cases x) (simp add: joint_misplaced_def list_getitem_def)
  qed
  then have "\<forall>x\<in>set (enumerate 0 js). joint_misplaced js ns x = Inr (projr (joint_misplaced js ns x))"
    by (metis sum.sel(2))
  then have "mapE (joint_misplaced js ns) (enumerate 0 js)
      = Inr (map (\<lambda>x. projr (joint_misplaced js ns x)) (enumerate 0 js))"
    by (intro mapE_Inr) blast
  then show ?thesis using True by (simp add: needs_reorder_joints_def)
next
  case False
  then obtain j where j: "j \<in> set js" "\<not> j < length ns"
    by (auto simp: joints_in_range_def list_all_iff)
  from j(1) obtain i where i: "i < length js" "js ! i = j" by (auto simp: in_set_conv_nth)
  then have "(i, j) \<in> set (enumerate 0 js)" by (simp add: in_set_enumerate_eq)
  moreover have "joint_misplaced js ns (i, j) = Inl IndexError"
    using j by (simp add: joint_misplaced_def list_getitem_def)
  moreover have "e = IndexError" if "joint_misplaced js ns x = Inl e" for x e
    using that by (cases x) (simp add: joint_misplaced_def list_getitem_def split: if_splits)
  ultimately have "mapE (joint_misplaced js ns) (enumerate 0 js) = Inl IndexError"
    by (intro mapE_Inl) auto
  then show ?thesis using False by (simp add: needs_reorder_joints_def)
qed

lemma joint_graph_length [simp]: "length (joint_graph js ns) = length ns"
  by (simp add: joint_graph_def)

lemma joint_graph_edge:
  "(p, c) \<in> edges (joint_graph js ns) \<Longrightarrow> p \<in> set js \<and> c \<in> set js"
  by (auto simp: edges_iff joint_graph_def joint_children_of_def split: if_splits)

text \<open>Without a cycle among the joints, the traversal from the root joints enters every joint.\<close>

lemma acyclic_joints_reached:
  assumes ac: "acyclic (edges (joint_graph js ns))" and x: "x \<in> set js"
  shows "x \<in> set (dfs_order (joint_graph js ns) (root_joints js (joint_graph js ns)) {})"
proof (rule ccontr)
  let ?g = "joint_graph js ns"
  let ?d = "dfs_order ?g (root_joints js ?g) {}"
  assume "x \<notin> set ?d"
  then have x': "x \<in> {y. y \<in> set js \<and> y \<notin> set ?d}" using x by simp
  have "wf (edges ?g)"
    using edges_finite ac by (rule finite_acyclic_wf)
  from this x' obtain z where z: "z \<in> {y. y \<in> set js \<and> y \<notin> set ?d}"
    and zmin: "\<And>y. (y, z) \<in> edges ?g \<Longrightarrow> y \<notin> {y. y \<in> set js \<and> y \<notin> set ?d}"
    by (rule wfE_min) blast
  have "set (root_joints js ?g) \<subseteq> set ?d"
    using dfs_order_covers[of "root_joints js ?g" "{}" ?g] by simp
  then have "z \<notin> set (root_joints js ?g)" using z by auto
  then have "z \<in> set (concat ?g)" using z by (simp add: root_joints_def)
  then obtain l where "l \<in> set ?g" "z \<in> set l" by auto
  then obtain p where p: "p < length ?g" "z \<in> set (?g ! p)"
    by (metis in_set_conv_nth)
  then have e: "(p, z) \<in> edges ?g" by (simp add: edges_iff)
  then have "p \<in> set js" using joint_graph_edge by blast
  with zmin[OF e] have "p \<in> set ?d" by simp
  from dfs_order_closed[OF this] e have "z \<in> set ?d" by (auto simp: edges_def)
  then show False using z by simp
qed

lemma acyclic_sorted_joints:
  assumes "acyclic (edges (joint_graph js ns))"
  shows "sorted_joints js ns = dfs_order (joint_graph js ns) (root_joints js (joint_graph js ns)) {}"
proof -
  have "filter (\<lambda>j. j \<notin> set (dfs_order (joint_graph js ns) (root_joints js (joint_graph js ns)) {})) js = []"
    using acyclic_joints_reached[OF assms] by (simp add: filter_empty_conv)
  then show ?thesis by (simp add: sorted_joints_def Let_def)
qed

lemma distinct_shorter:
  assumes "distinct out" and "set out = set js"
  shows "length out \<le> length js" and "\<not> distinct js \<Longrightarrow> length out < length js"
    and "mset out = mset js \<longleftrightarrow> distinct js"
proof -
  have c: "length out = card (set js)" using assms distinct_card[of out] by simp
  then show "length out \<le> length js" by (simp add: card_length)
  show "length out < length js" if "\<not> distinct js"
  proof -
    have "card (set js) \<noteq> length js" using that card_distinct[of js] by blast
    then show ?thesis using c card_length[of js] by simp
  qed
  show "mset out = mset js \<longleftrightarrow> distinct js"
  proof
    assume "mset out = mset js"
    then show "distinct js" using assms(1) by (metis mset_eq_imp_distinct_iff)
  next
    assume "distinct js"
    then show "mset out = mset js"
      using assms set_eq_iff_mset_eq_distinct[of out js] by simp
  qed
qed

text \<open>
  Claim C10. Let the joint sort return on a joints list whose joints have no cycle among
  them. Then every joint of the list stands exactly once in the result (the result has
  no repetition and the same members); if the list names a joint twice the result is
  strictly shorter; the result is a permutation of the list exactly when the list has no
  repetition; and a skin with this list for which the reorder test fires gets the result
  as its new joints list.
\<close>

theorem joint_sort_emits_each_joint_once:
  assumes "topological_sort_joints allow js ns = Inr out"
    and "acyclic (edges (joint_graph js ns))"
  shows "distinct out \<and> set out = set js
    \<and> (\<not> distinct js \<longrightarrow> length out < length js)
    \<and> (mset out = mset js \<longleftrightarrow> distinct js)
    \<and> (\<forall>sk. joints sk = Some js \<and> needs_reorder_joints js ns = Inr True
          \<longrightarrow> fix_skin allow ns sk = Inr (sk\<lparr>joints := Some out\<rparr>, True))"
proof -
  have out: "out = sorted_joints js ns"
    using topological_sort_joints_Inr[OF assms(1)] by simp
  have d: "distinct out"
    unfolding out acyclic_sorted_joints[OF assms(2)] by (rule dfs_order_distinct)
  have s: "set out = set js" unfolding out by (rule sorted_joints_set)
  have f: "fix_skin allow ns sk = Inr (sk\<lparr>joints := Some out\<rparr>, True)"
    if "joints sk = Some js" "needs_reorder_joints js ns = Inr True" for sk
  proof -
    have "js \<noteq> []" using that(2) by (auto simp: needs_reorder_joints_def)
    then show ?thesis using that assms(1) by (simp add: fix_skin_def)
  qed
  show ?thesis
    using d s distinct_shorter(2,3)[OF d s] f by blast
qed

lemma two_bones_acyclic: "acyclic (edges (joint_graph [1, 0, 1] two_bones))"
proof -
  have "(p, c) \<in> edges (joint_graph [1, 0, 1] two_bones) \<longleftrightarrow> p = 0 \<and> c = 1" for p c
    by (auto simp: edges_iff joint_graph_def joint_children_of_def two_bones_def less_Suc_eq)
  then have "(edges (joint_graph [1, 0, 1] two_bones))\<inverse> \<subseteq> measure (\<lambda>x. 1 - x)" by auto
  then have "wf ((edges (joint_graph [1, 0, 1] two_bones))\<inverse>)" by (rule wf_subset[OF wf_measure])
  then have "acyclic ((edges (joint_graph [1, 0, 1] two_bones))\<inverse>)" by (rule wf_acyclic)
  then show ?thesis by (simp only: acyclic_converse)
qed

lemma two_bones_sort: "topological_sort_joints 100 [1, 0, 1] two_bones = Inr [0, 1]"
  by (simp add: topological_sort_joints_def joint_graph_def joint_children_of_def two_bones_def
      adj_def dfs_pos Let_def)

lemma two_bones_test: "needs_reorder_joints [1, 0, 1] two_bones = Inr True"
  by (simp add: needs_reorder_joints_def joint_misplaced_def list_getitem_def two_bones_def
      enumerate_eq_zip)

theorem joint_sort_emits_each_joint_once_witness:
  "topological_sort_joints 100 [1, 0, 1] two_bones = Inr [0, 1]
   \<and> acyclic (edges (joint_graph [1, 0, 1] two_bones))
   \<and> distinct [0 :: nat, 1] \<and> set [0, 1] = set [1 :: nat, 0, 1]
   \<and> length [0 :: nat, 1] < length [1 :: nat, 0, 1]
   \<and> mset [0, 1] \<noteq> mset [1 :: nat, 0, 1]
   \<and> fix_skin 100 two_bones \<lparr>skeleton = None, joints = Some [1, 0, 1]\<rparr>
        = Inr (\<lparr>skeleton = None, joints = Some [0, 1]\<rparr>, True)"
  using joint_sort_emits_each_joint_once[OF two_bones_sort two_bones_acyclic] two_bones_test
    two_bones_sort two_bones_acyclic
  by simp

text \<open>
  Two joints that are each other's child have no root joint, so the traversal enters
  nothing and the closing loop copies the whole list, repetition included: the reorder
  test fires, and the new joints list is the old one.
\<close>

theorem joint_sort_keeps_duplicate_counterexample:
  "needs_reorder_joints [1, 2, 2] loop_bones = Inr True
   \<and> topological_sort_joints 100 [1, 2, 2] loop_bones = Inr [1, 2, 2]
   \<and> fix_skin 100 loop_bones \<lparr>skeleton = None, joints = Some [1, 2, 2]\<rparr>
        = Inr (\<lparr>skeleton = None, joints = Some [1, 2, 2]\<rparr>, True)
   \<and> \<not> distinct [1 :: nat, 2, 2]"
  by (simp add: fix_skin_def needs_reorder_joints_def joint_misplaced_def list_getitem_def
      loop_bones_def enumerate_eq_zip topological_sort_joints_def joint_graph_def
      joint_children_of_def adj_def dfs_pos Let_def)

lemma adj_renamed_graph:
  assumes "distinct p" and "set p = {..<length g}" and "x < length g"
  shows "adj (renamed_graph p g) (index_of p x) = map (index_of p) (adj g x)"
proof -
  have x: "x \<in> set p" using assms by simp
  have "index_of p x < length p" using x by (rule index_of_less)
  moreover have "p ! index_of p x = x" using x by (rule nth_index_of)
  ultimately show ?thesis using assms(3) by (simp add: adj_def renamed_graph_def)
qed

lemma dfs_order_renamed:
  assumes "distinct p" and "set p = {..<length g}" and "set (concat g) \<subseteq> {..<length g}"
    and "set stack \<subseteq> {..<length g}" and "vis \<subseteq> {..<length g}"
  shows "dfs_order (renamed_graph p g) (map (index_of p) stack) (index_of p ` vis)
      = map (index_of p) (dfs_order g stack vis)"
  using assms
proof (induction g stack vis rule: dfs_vis_induct)
  case (Nil g vis)
  then show ?case by simp
next
  case (Seen g x pending vis)
  have "index_of p x \<in> index_of p ` vis" using Seen.hyps by simp
  then show ?case using Seen by (simp add: dfs_order_Cons)
next
  case (New g x pending vis)
  have x: "x < length g" using New.prems(4) by simp
  have fx: "index_of p x \<notin> index_of p ` vis"
  proof
    assume "index_of p x \<in> index_of p ` vis"
    then obtain y where y: "y \<in> vis" "index_of p x = index_of p y" by blast
    then have "y \<in> set p" "x \<in> set p" using New.prems(2,5) x by auto
    then have "x = y" using y(2) index_of_inj by metis
    then show False using y(1) New.hyps by simp
  qed
  have a: "set (adj g x) \<subseteq> {..<length g}"
    using adj_subset[of g x] New.prems(3) by blast
  have "dfs_order (renamed_graph p g) (map (index_of p) (adj g x @ pending))
          (index_of p ` insert x vis)
      = map (index_of p) (dfs_order g (adj g x @ pending) (insert x vis))"
    using New.prems a x by (intro New.IH) auto
  then show ?case
    using fx New.hyps adj_renamed_graph[OF New.prems(1,2) x]
    by (simp add: dfs_order_Cons)
qed

lemma map_index_of_self: "distinct p \<Longrightarrow> map (index_of p) p = [0..<length p]"
  by (intro nth_equalityI) (simp_all add: index_of_nth)

lemma concat_renamed_graph:
  assumes "set p = {..<length g}"
  shows "set (concat (renamed_graph p g)) = index_of p ` set (concat g)"
proof -
  have "set (concat (renamed_graph p g)) = (\<Union>i\<in>set p. index_of p ` set (g ! i))"
    by (simp add: renamed_graph_def)
  also have "\<dots> = index_of p ` (\<Union>i\<in>{..<length g}. set (g ! i))"
    using assms by auto
  also have "(\<Union>i\<in>{..<length g}. set (g ! i)) = set (concat g)"
    unfolding set_concat set_conv_nth[of g] by auto
  finally show ?thesis .
qed

lemma root_nodes_renamed:
  assumes d: "distinct p" and s: "set p = {..<length g}" and rng: "set (concat g) \<subseteq> {..<length g}"
  shows "root_nodes (renamed_graph p g)
      = map (index_of p) (filter (\<lambda>x. x \<notin> set (concat g)) p)"
proof -
  have len: "length p = length g" using distinct_card[OF d] s by simp
  have iff: "index_of p x \<in> index_of p ` set (concat g) \<longleftrightarrow> x \<in> set (concat g)"
    if "x \<in> set p" for x
  proof
    assume "index_of p x \<in> index_of p ` set (concat g)"
    then obtain y where y: "y \<in> set (concat g)" "index_of p x = index_of p y" by blast
    then have "y \<in> set p" using rng s by auto
    then have "x = y" using that y(2) index_of_inj by metis
    then show "x \<in> set (concat g)" using y(1) by simp
  qed simp
  have "map (index_of p) (filter (\<lambda>x. x \<notin> set (concat g)) p)
      = filter (\<lambda>i. i \<notin> index_of p ` set (concat g)) (map (index_of p) p)"
    unfolding filter_map comp_def
    by (rule arg_cong[where f = "map (index_of p)"], rule filter_cong)
      (simp_all add: iff del: set_concat)
  also have "\<dots> = root_nodes (renamed_graph p g)"
  proof -
    have "length (renamed_graph p g) = length g" by (simp add: renamed_graph_def len)
    then show ?thesis
      by (simp only: root_nodes_def concat_renamed_graph[OF s] map_index_of_self[OF d] len)
  qed
  finally show ?thesis by simp
qed

text \<open>Sorting the sorted graph again moves nothing.\<close>

lemma sorted_nodes_renamed:
  assumes rng: "set (concat g) \<subseteq> {..<length g}"
  shows "sorted_nodes (renamed_graph (sorted_nodes g) g) = [0..<length g]"
proof -
  define p where "p = sorted_nodes g"
  define R where "R = (\<lambda>x. x \<notin> set (concat g))"
  define d where "d = dfs_order g (root_nodes g) {}"
  define l where "l = filter (\<lambda>i. i \<notin> set d) [0..<length g]"
  have p: "p = d @ l" by (simp add: p_def sorted_nodes_def d_def l_def)
  have dp: "distinct p" unfolding p_def by (rule sorted_nodes_distinct)
  have sp: "set p = {..<length g}" unfolding p_def by (rule sorted_nodes_set[OF rng])
  have len: "length p = length g" unfolding p_def by (rule sorted_nodes_length[OF rng])
  have "set (root_nodes g) \<subseteq> set d"
    using dfs_order_covers[of "root_nodes g" "{}" g] by (simp add: d_def)
  then have "filter R l = []"
    by (auto simp: filter_empty_conv l_def R_def root_nodes_def)
  then have fr: "filter R p = filter R d" by (simp add: p)
  have restart: "dfs_order g (filter R d) {} = d"
    unfolding d_def by (rule dfs_order_restart) (simp_all add: R_def root_nodes_def)
  have "set (filter R d) \<subseteq> {..<length g}" using sp p by auto
  from dfs_order_renamed[OF dp sp rng this, of "{}"]
  have "dfs_order (renamed_graph p g) (map (index_of p) (filter R d)) {} = map (index_of p) d"
    by (simp add: restart)
  then have r: "dfs_order (renamed_graph p g) (root_nodes (renamed_graph p g)) {}
      = map (index_of p) d"
    using fr by (simp only: root_nodes_renamed[OF dp sp rng] R_def)
  have ld: "length d \<le> length g" using len by (simp add: p)
  have "map (index_of p) d = take (length d) (map (index_of p) p)"
    by (simp add: p)
  also have "\<dots> = take (length d) [0..<length g]"
    by (simp only: map_index_of_self[OF dp] len)
  also have "\<dots> = [0..<length d]"
    using ld by (simp add: take_upt)
  finally have md: "map (index_of p) d = [0..<length d]" .
  have "filter (\<lambda>i. i \<notin> set [0..<length d]) [0..<length g] = [length d..<length g]"
  proof -
    have "[0..<length g] = [0..<length d] @ [length d..<length g]"
      using ld by (metis le_add_diff_inverse upt_add_eq_append zero_le)
    then show ?thesis by (simp add: filter_empty_conv filter_id_conv)
  qed
  moreover have "[0..<length d] @ [length d..<length g] = [0..<length g]"
    using ld by (metis le_add_diff_inverse upt_add_eq_append zero_le)
  moreover have "length (renamed_graph p g) = length g" by (simp add: renamed_graph_def len)
  ultimately have "sorted_nodes (renamed_graph p g) = [0..<length g]"
    by (simp add: sorted_nodes_def[of "renamed_graph p g"] r md)
  then show ?thesis by (simp add: p_def)
qed

lemma mapE_Inr_D: "mapE f xs = Inr ys \<Longrightarrow> x \<in> set xs \<Longrightarrow> \<exists>y. f x = Inr y"
  by (induction xs arbitrary: ys) (auto split: sum.splits)

lemma mapE_opt_Inr_D:
  "mapE_opt f xo = Inr yo \<Longrightarrow> xo = Some xs \<Longrightarrow> x \<in> set xs \<Longrightarrow> \<exists>y. f x = Inr y"
  using mapE_Inr_D[of f xs _ x] by (auto simp: mapE_opt_def split: sum.splits)

lemma remap_list_dom: "remap_list m xs = Inr ys \<Longrightarrow> x \<in> set xs \<Longrightarrow> x \<in> dom m"
  using mapE_Inr_D[of "dict_getitem m" xs ys x]
  by (auto simp: remap_list_def dict_getitem_def split: option.splits)

lemma remap_node_dom:
  "remap_node m nd = Inr nd' \<Longrightarrow> children nd = Some cs \<Longrightarrow> c \<in> set cs \<Longrightarrow> c \<in> dom m"
  using remap_list_dom[of m cs _ c] by (auto simp: remap_node_def split: sum.splits)

lemma remap_scene_dom:
  "remap_scene m sc = Inr sc' \<Longrightarrow> k \<in> set (scene_refs sc) \<Longrightarrow> k \<in> dom m"
  using remap_list_dom[of m _ _ k]
  by (auto simp: remap_scene_def scene_refs_def opt_list_def split: sum.splits option.splits)

lemma remap_skin_dom:
  assumes "remap_skin m sk = Inr sk'" and "k \<in> set (skin_refs sk)"
  shows "k \<in> dom m"
proof (cases "skeleton sk")
  case None
  then show ?thesis
    using assms remap_list_dom[of m _ _ k]
    by (auto simp: remap_skin_def skin_refs_def opt_list_def split: sum.splits option.splits)
next
  case (Some r)
  then obtain r' where r: "m r = Some r'"
    using assms(1) by (auto simp: remap_skin_def dict_getitem_def split: sum.splits option.splits)
  show ?thesis
  proof (cases "k = r")
    case True
    then show ?thesis using r by auto
  next
    case False
    then obtain js where js: "joints sk = Some js" "k \<in> set js"
      using assms(2) Some by (cases "joints sk") (auto simp: skin_refs_def opt_list_def)
    then obtain js' where "remap_list m js = Inr js'"
      using assms(1) Some r
      by (auto simp: remap_skin_def dict_getitem_def split: sum.splits option.splits)
    then show ?thesis using js(2) by (rule remap_list_dom)
  qed
qed

lemma remap_channel_dom:
  "remap_channel m ch = Inr ch' \<Longrightarrow> k \<in> set (channel_refs ch) \<Longrightarrow> k \<in> dom m"
  by (auto simp: remap_channel_def channel_refs_def dict_getitem_def
      split: sum.splits option.splits)

lemma remap_animation_dom:
  assumes "remap_animation m an = Inr an'" and "k \<in> set (animation_refs an)"
  shows "k \<in> dom m"
proof -
  from assms(2) obtain cs ch where cs: "channels an = Some cs" "ch \<in> set cs"
    and k: "k \<in> set (channel_refs ch)"
    by (cases "channels an") (auto simp: animation_refs_def opt_list_def)
  from assms(1) obtain co where "mapE_opt (remap_channel m) (channels an) = Inr co"
    by (auto simp: remap_animation_def split: sum.splits)
  from mapE_opt_Inr_D[OF this cs] obtain ch' where "remap_channel m ch = Inr ch'" by blast
  then show ?thesis using k by (rule remap_channel_dom)
qed

lemma sorted_nodes_all: "i < length g \<Longrightarrow> i \<in> set (sorted_nodes g)"
  by (auto simp: sorted_nodes_def)

text \<open>
  When the node-order pass reorders and returns, every node index of the document points
  into the node list: an index that does not is a \<open>KeyError\<close> or an \<open>IndexError\<close>.
\<close>

lemma fix_node_hierarchy_returns_in_range:
  assumes ns: "nodes (gltf_data s) = Some ns" and need: "needs_reorder_nodes ns"
    and ret: "fix_node_hierarchy allow s = Inr s'"
  shows "refs_in_range (gltf_data s)"
proof -
  define d where "d = gltf_data s"
  define srt where "srt = sorted_nodes (node_graph ns)"
  define m where "m = index_mapping_of srt"
  from ret ns need obtain r where r: "topological_sort_nodes allow ns = Inr r"
    by (cases "topological_sort_nodes allow ns") (simp_all add: fix_node_hierarchy_def)
  have ts: "topological_sort_nodes allow ns = Inr (srt, m)"
    using topological_sort_nodes_Inr[OF r] r by (simp add: srt_def m_def)
  from ret ns need ts obtain n1 n2 scs sks ans where
    s1: "mapE (list_getitem ns) srt = Inr n1"
    and s2: "mapE (remap_node m) n1 = Inr n2"
    and s3: "mapE_opt (remap_scene m) (scenes d) = Inr scs"
    and s4: "mapE_opt (remap_skin m) (skins d) = Inr sks"
    and s5: "mapE_opt (remap_animation m) (animations d) = Inr ans"
    by (auto simp: fix_node_hierarchy_def d_def split: sum.splits)
  have lt: "i < length ns" if "i \<in> set srt" for i
    using mapE_Inr_D[OF s1 that] by (auto simp: list_getitem_def split: if_splits)
  have dom: "k < length ns" if "k \<in> dom m" for k
  proof -
    have "k \<in> set srt"
      using that index_mapping_of_distinct[OF sorted_nodes_distinct, of "node_graph ns" k]
      by (auto simp: m_def srt_def split: if_splits)
    then show ?thesis by (rule lt)
  qed
  have n1: "n1 = map (\<lambda>i. ns ! i) srt"
  proof -
    have "mapE (list_getitem ns) srt = Inr (map (\<lambda>i. ns ! i) srt)"
      using lt by (intro mapE_Inr) (simp add: list_getitem_def)
    then show ?thesis using s1 by simp
  qed
  have a: "k < length ns" if "k \<in> set (concat (node_graph ns))" for k
  proof -
    from that obtain l where "l \<in> set (node_graph ns)" "k \<in> set l" by auto
    then obtain nd cs where nd: "nd \<in> set ns" "children nd = Some cs" "k \<in> set cs"
      by (auto simp: node_graph_def split: option.splits)
    then obtain i where i: "i < length ns" "ns ! i = nd" by (auto simp: in_set_conv_nth)
    then have "i \<in> set srt" by (simp add: srt_def sorted_nodes_all)
    then have "nd \<in> set n1" using i(2) by (auto simp: n1)
    from mapE_Inr_D[OF s2 this] obtain nd' where "remap_node m nd = Inr nd'" by blast
    from remap_node_dom[OF this nd(2,3)] show ?thesis by (rule dom)
  qed
  have b: "k < length ns" if "k \<in> set (concat (map scene_refs (opt_list (scenes d))))" for k
  proof -
    from that obtain xs x where x: "scenes d = Some xs" "x \<in> set xs" "k \<in> set (scene_refs x)"
      by (cases "scenes d") (auto simp: opt_list_def)
    from mapE_opt_Inr_D[OF s3 x(1,2)] obtain x' where "remap_scene m x = Inr x'" by blast
    from remap_scene_dom[OF this x(3)] show ?thesis by (rule dom)
  qed
  have c: "k < length ns" if "k \<in> set (concat (map skin_refs (opt_list (skins d))))" for k
  proof -
    from that obtain xs x where x: "skins d = Some xs" "x \<in> set xs" "k \<in> set (skin_refs x)"
      by (cases "skins d") (auto simp: opt_list_def)
    from mapE_opt_Inr_D[OF s4 x(1,2)] obtain x' where "remap_skin m x = Inr x'" by blast
    from remap_skin_dom[OF this x(3)] show ?thesis by (rule dom)
  qed
  have e: "k < length ns" if "k \<in> set (concat (map animation_refs (opt_list (animations d))))" for k
  proof -
    from that obtain xs x where x: "animations d = Some xs" "x \<in> set xs"
      "k \<in> set (animation_refs x)"
      by (cases "animations d") (auto simp: opt_list_def)
    from mapE_opt_Inr_D[OF s5 x(1,2)] obtain x' where "remap_animation m x = Inr x'" by blast
    from remap_animation_dom[OF this x(3)] show ?thesis by (rule dom)
  qed
  have "k < length ns" if "k \<in> set (node_refs d)" for k
    using that a b c e ns unfolding node_refs_def d_def[symmetric]
    by (simp add: opt_list_def d_def[symmetric] del: set_concat) blast
  then show ?thesis
    using ns by (simp add: refs_in_range_def list_all_iff d_def opt_list_def)
qed

text \<open>
  Where the traversal from given start nodes returns, so does the traversal that starts
  again from those of them that it entered, in the order in which it entered them.
\<close>

lemma dfs_children_restart:
  assumes R: "\<And>x. R x \<Longrightarrow> x \<notin> set (concat g)" and all: "\<forall>x\<in>set stack. R x"
    and ret: "dfs_children allow g stack (vis, out) = Inr st'"
  shows "dfs_children allow g (filter R (dfs_order g stack vis)) (vis, out) = Inr st'"
  using all ret
proof (induction stack arbitrary: vis out)
  case Nil
  then show ?case by simp
next
  case (Cons x stack)
  let ?a = "dfs_order g [x] vis"
  let ?b = "dfs_order g stack (vis \<union> set ?a)"
  from Cons.prems(2) obtain st1 where x: "dfs allow g x (vis, out) = Inr st1"
    and rest: "dfs_children allow g stack st1 = Inr st'"
    by (cases "dfs allow g x (vis, out)") simp_all
  have "st1 = traverse g [x] (vis, out)" by (rule dfs_traverse(1)[OF x])
  then have st1: "st1 = (vis \<union> set ?a, out @ ?a)" by (simp only: dfs_split)
  have IH: "dfs_children allow g (filter R ?b) (vis \<union> set ?a, out @ ?a) = Inr st'"
    using Cons.IH[of "vis \<union> set ?a" "out @ ?a"] Cons.prems(1) rest st1 by simp
  have split: "dfs_order g (x # stack) vis = ?a @ ?b" by (rule dfs_order_Cons_split)
  show ?case
  proof (cases "x \<in> vis")
    case True
    then have "?a = []" by (simp add: dfs_order_single)
    then show ?thesis using IH split by simp
  next
    case False
    let ?c = "dfs_order g (adj g x) (insert x vis)"
    have a: "?a = x # ?c" using False by (simp add: dfs_order_single)
    have "set ?c \<subseteq> set (concat g)"
      using dfs_order_subset[of g "adj g x" "insert x vis"] adj_subset[of g x] by auto
    then have noR: "filter R ?c = []" using R by (auto simp: filter_empty_conv)
    have Rx: "R x" using Cons.prems(1) by simp
    have "filter R (dfs_order g (x # stack) vis) = x # filter R ?b"
      using split a noR Rx by simp
    then show ?thesis using x IH st1 by simp
  qed
qed

text \<open>The traversal of the renamed graph goes as deep as that of the graph.\<close>

lemma dfs_renamed_returns:
  assumes d: "distinct p" and s: "set p = {..<length g0}"
    and rng: "set (concat g0) \<subseteq> {..<length g0}"
  shows "g = g0 \<Longrightarrow> x < length g0 \<Longrightarrow> fst st \<subseteq> {..<length g0}
      \<Longrightarrow> dfs allow g x st = Inr st'
      \<Longrightarrow> \<forall>out'. \<exists>st''. dfs allow (renamed_graph p g0) (index_of p x) (index_of p ` fst st, out')
            = Inr st''"
    and "g = g0 \<Longrightarrow> set cs \<subseteq> {..<length g0} \<Longrightarrow> fst st \<subseteq> {..<length g0}
      \<Longrightarrow> dfs_children allow g cs st = Inr st'
      \<Longrightarrow> \<forall>out'. \<exists>st''. dfs_children allow (renamed_graph p g0) (map (index_of p) cs)
            (index_of p ` fst st, out') = Inr st''"
proof (induction allow g x st and allow g cs st arbitrary: st' and st'
    rule: dfs_dfs_children.induct)
  case (1 g x st)
  then show ?case by simp
next
  case (2 allow g x visited sorted_indices)
  show ?case
  proof (cases "x \<in> visited")
    case True
    then have "index_of p x \<in> index_of p ` visited" by simp
    then show ?thesis by simp
  next
    case False
    have fx: "index_of p x \<notin> index_of p ` visited"
    proof
      assume "index_of p x \<in> index_of p ` visited"
      then obtain y where y: "y \<in> visited" "index_of p x = index_of p y" by blast
      then have "y \<in> set p" "x \<in> set p" using s 2(3,4) by auto
      then have "x = y" using y(2) index_of_inj by metis
      then show False using y(1) False by simp
    qed
    have a: "set (adj g x) \<subseteq> {..<length g0}"
      using adj_subset[of g x] rng 2(2) by blast
    have r: "dfs_children allow g (adj g x) (insert x visited, sorted_indices @ [x]) = Inr st'"
      using 2(5) False by simp
    have v: "fst (insert x visited, sorted_indices @ [x]) \<subseteq> {..<length g0}"
      using 2(3,4) by simp
    from 2(1)[OF False 2(2) a v r]
    have IH: "\<exists>st''. dfs_children allow (renamed_graph p g0) (map (index_of p) (adj g x))
        (index_of p ` insert x visited, out') = Inr st''" for out'
      by simp
    have adj: "adj (renamed_graph p g0) (index_of p x) = map (index_of p) (adj g0 x)"
      by (rule adj_renamed_graph[OF d s 2(3)])
    show ?thesis
      using fx IH adj 2(2) by simp
  qed
next
  case (3 allow g st)
  then show ?case by simp
next
  case (4 allow g c cs st)
  from 4(6) obtain st1 where c: "dfs allow g c st = Inr st1"
    and rest: "dfs_children allow g cs st1 = Inr st'"
    by (cases "dfs allow g c st") simp_all
  have c_lt: "c < length g0" and cs_sub: "set cs \<subseteq> {..<length g0}" using 4(4) by simp_all
  obtain vis out where st: "st = (vis, out)" by (cases st)
  have vis: "vis \<subseteq> {..<length g0}" using 4(5) st by simp
  have "st1 = traverse g [c] st" by (rule dfs_traverse(1)[OF c])
  then have st1: "fst st1 = vis \<union> set (dfs_order g0 [c] vis)"
    using st 4(3) by (simp add: dfs_split)
  have "set (dfs_order g0 [c] vis) \<subseteq> set [c] \<union> set (concat g0)"
    by (rule dfs_order_subset)
  also have "\<dots> \<subseteq> {..<length g0}" using rng c_lt by simp
  finally have sub1: "fst st1 \<subseteq> {..<length g0}"
    using st1 vis by blast
  show ?case
  proof
    fix out'
    from 4(1)[OF 4(3) c_lt 4(5) c]
    have "\<exists>st''. dfs allow (renamed_graph p g0) (index_of p c) (index_of p ` vis, out')
        = Inr st''" unfolding st fst_conv by (rule allE)
    then obtain st1' where c': "dfs allow (renamed_graph p g0) (index_of p c)
        (index_of p ` vis, out') = Inr st1'" by (rule exE)
    have "st1' = traverse (renamed_graph p g0) [index_of p c] (index_of p ` vis, out')"
      by (rule dfs_traverse(1)[OF c'])
    then have "fst st1' = index_of p ` vis
        \<union> set (dfs_order (renamed_graph p g0) (map (index_of p) [c]) (index_of p ` vis))"
      by (simp add: dfs_split)
    also have "dfs_order (renamed_graph p g0) (map (index_of p) [c]) (index_of p ` vis)
        = map (index_of p) (dfs_order g0 [c] vis)"
      using c_lt vis by (intro dfs_order_renamed[OF d s rng]) simp_all
    finally have "fst st1' = index_of p ` fst st1" by (simp add: st1 image_Un)
    then have st1': "st1' = (index_of p ` fst st1, snd st1')" by (cases st1') simp
    from 4(2)[OF c 4(3) cs_sub sub1 rest]
    have "\<exists>st''. dfs_children allow (renamed_graph p g0) (map (index_of p) cs)
        (index_of p ` fst st1, snd st1') = Inr st''" by (rule allE)
    then obtain st'' where "dfs_children allow (renamed_graph p g0) (map (index_of p) cs)
        (index_of p ` fst st1, snd st1') = Inr st''" by (rule exE)
    then show "\<exists>st''. dfs_children allow (renamed_graph p g0) (map (index_of p) (c # cs))
        (index_of p ` fst st, out') = Inr st''"
      using c' st1' st by simp
  qed
qed

lemma scene_refs_rename [simp]: "scene_refs (rename_scene f sc) = map f (scene_refs sc)"
  by (cases "scene_nodes sc") (simp_all add: scene_refs_def rename_scene_def opt_list_def)

lemma skin_refs_rename [simp]: "skin_refs (rename_skin f sk) = map f (skin_refs sk)"
  by (cases "skeleton sk"; cases "joints sk")
    (simp_all add: skin_refs_def rename_skin_def opt_list_def)

lemma channel_refs_rename [simp]: "channel_refs (rename_channel f ch) = map f (channel_refs ch)"
  by (cases "target_node ch") (simp_all add: channel_refs_def rename_channel_def)

lemma animation_refs_rename [simp]:
  "animation_refs (rename_animation f an) = map f (animation_refs an)"
  by (cases "channels an")
    (simp_all add: animation_refs_def rename_animation_def opt_list_def map_concat comp_def)

lemma concat_refs_rename:
  assumes "\<And>x. refs (ren x) = map f (refs x)"
  shows "set (concat (map refs (map ren xs))) = f ` set (concat (map refs xs))"
proof (induction xs)
  case Nil
  show ?case by simp
next
  case (Cons x xs)
  have "set (concat (map refs (map ren (x # xs))))
      = set (refs (ren x)) \<union> set (concat (map refs (map ren xs)))" by simp
  also have "\<dots> = f ` set (refs x) \<union> f ` set (concat (map refs xs))"
    by (simp only: assms Cons.IH set_map)
  also have "\<dots> = f ` set (concat (map refs (x # xs)))" by (simp add: image_Un)
  finally show ?case .
qed

lemma node_graph_reordered:
  assumes ns: "nodes d = Some ns" and ok: "refs_in_range d"
  shows "node_graph (opt_list (nodes (reordered_gltf d)))
      = renamed_graph (sorted_nodes (node_graph ns)) (node_graph ns)"
proof -
  let ?p = "sorted_nodes (node_graph ns)"
  have rng: "set (concat (node_graph ns)) \<subseteq> {..<length (node_graph ns)}"
    using refs_in_range_children[OF ok ns] by simp
  have "(case children (rename_node (index_of ?p) (ns ! i)) of None \<Rightarrow> [] | Some cs \<Rightarrow> cs)
      = map (index_of ?p) (node_graph ns ! i)" if "i \<in> set ?p" for i
  proof -
    have "i < length ns" using that sorted_nodes_set[OF rng] by simp
    then show ?thesis by (cases "children (ns ! i)") (simp_all add: node_graph_def)
  qed
  then show ?thesis
    using ns by (simp add: reordered_gltf_def opt_list_def Let_def renamed_graph_def
        node_graph_def[of "map _ _"] cong: map_cong)
qed

lemma length_nodes_reordered:
  assumes ns: "nodes d = Some ns" and ok: "refs_in_range d"
  shows "length (opt_list (nodes (reordered_gltf d))) = length ns"
proof -
  have rng: "set (concat (node_graph ns)) \<subseteq> {..<length (node_graph ns)}"
    using refs_in_range_children[OF ok ns] by simp
  show ?thesis
    using ns sorted_nodes_length[OF rng]
    by (simp add: reordered_gltf_def opt_list_def Let_def)
qed

lemma refs_in_range_reordered:
  assumes ns: "nodes d = Some ns" and ok: "refs_in_range d"
  shows "refs_in_range (reordered_gltf d)"
proof -
  let ?p = "sorted_nodes (node_graph ns)"
  let ?f = "index_of ?p"
  have rng: "set (concat (node_graph ns)) \<subseteq> {..<length (node_graph ns)}"
    using refs_in_range_children[OF ok ns] by simp
  have sp: "set ?p = {..<length (node_graph ns)}" by (rule sorted_nodes_set[OF rng])
  have lp: "length ?p = length ns" using sorted_nodes_length[OF rng] by simp
  have f: "?f k < length ns" if "k < length ns" for k
    using index_of_less[of k ?p] that sp lp by simp
  have all: "k < length ns" if "k \<in> set (node_refs d)" for k
    using ok ns that by (simp add: refs_in_range_def opt_list_def list_all_iff)
  have 1: "set (concat (node_graph (opt_list (nodes (reordered_gltf d)))))
      = ?f ` set (concat (node_graph ns))"
    unfolding node_graph_reordered[OF ns ok] by (rule concat_renamed_graph[OF sp])
  have 2: "scenes (reordered_gltf d) = map_option (map (rename_scene ?f)) (scenes d)"
    "skins (reordered_gltf d) = map_option (map (rename_skin ?f)) (skins d)"
    "animations (reordered_gltf d) = map_option (map (rename_animation ?f)) (animations d)"
    using ns by (simp_all add: reordered_gltf_def opt_list_def Let_def)
  have 3: "opt_list (map_option (map h) xo) = map h (opt_list xo)" for h :: "'x \<Rightarrow> 'x" and xo
    by (cases xo) (simp_all add: opt_list_def)
  have sc: "set (concat (map scene_refs (map (rename_scene ?f) xs)))
      = ?f ` set (concat (map scene_refs xs))" for xs
    by (rule concat_refs_rename[where refs = scene_refs and ren = "rename_scene ?f" and f = ?f])
      (rule scene_refs_rename)
  have sk: "set (concat (map skin_refs (map (rename_skin ?f) xs)))
      = ?f ` set (concat (map skin_refs xs))" for xs
    by (rule concat_refs_rename[where refs = skin_refs and ren = "rename_skin ?f" and f = ?f])
      (rule skin_refs_rename)
  have an: "set (concat (map animation_refs (map (rename_animation ?f) xs)))
      = ?f ` set (concat (map animation_refs xs))" for xs
    by (rule concat_refs_rename[where refs = animation_refs and ren = "rename_animation ?f" and f = ?f])
      (rule animation_refs_rename)
  have ol: "opt_list (nodes d) = ns" using ns by (simp add: opt_list_def)
  have eq: "set (node_refs (reordered_gltf d)) = ?f ` set (node_refs d)"
    unfolding node_refs_def set_append image_Un 1 2 3 sc sk an ol ..
  have "k < length ns" if "k \<in> set (node_refs (reordered_gltf d))" for k
  proof -
    from that have "k \<in> ?f ` set (node_refs d)" by (simp only: eq)
    then obtain j where j: "j \<in> set (node_refs d)" and k: "k = ?f j" by (rule imageE)
    from all[OF j] have "?f j < length ns" by (rule f)
    then show ?thesis by (simp only: k)
  qed
  then show ?thesis
    by (simp add: refs_in_range_def list_all_iff length_nodes_reordered[OF ns ok])
qed

text \<open>Reordering the reordered document changes nothing.\<close>

lemma reordered_gltf_idem:
  assumes ns: "nodes d = Some ns" and ok: "refs_in_range d"
  shows "reordered_gltf (reordered_gltf d) = reordered_gltf d"
proof -
  define d' where "d' = reordered_gltf d"
  define g where "g = node_graph ns"
  obtain ns' where ns': "nodes d' = Some ns'"
    using ns by (simp add: d'_def reordered_gltf_def Let_def)
  have len: "length ns' = length ns"
    using length_nodes_reordered[OF ns ok] ns' by (simp add: d'_def opt_list_def)
  have ok': "refs_in_range d'" unfolding d'_def by (rule refs_in_range_reordered[OF ns ok])
  have rng: "set (concat g) \<subseteq> {..<length g}"
    using refs_in_range_children[OF ok ns] by (simp add: g_def)
  have "node_graph ns' = renamed_graph (sorted_nodes g) g"
    using node_graph_reordered[OF ns ok] ns' by (simp add: d'_def opt_list_def g_def)
  then have srt: "sorted_nodes (node_graph ns') = [0..<length ns']"
    using sorted_nodes_renamed[OF rng] by (simp add: g_def len)
  have all: "k < length ns'" if "k \<in> set (node_refs d')" for k
    using ok' ns' that by (simp add: refs_in_range_def opt_list_def list_all_iff)
  have same: "index_of [0..<length ns'] k = k" if "k \<in> set (node_refs d')" for k
    using all[OF that] by (rule index_of_upt0)
  have n: "map (\<lambda>old_idx. rename_node (index_of [0..<length ns']) (ns' ! old_idx))
      [0..<length ns'] = ns'"
  proof (rule nth_equalityI)
    fix i assume "i < length (map (\<lambda>old_idx. rename_node (index_of [0..<length ns'])
        (ns' ! old_idx)) [0..<length ns'])"
    then have i: "i < length ns'" by simp
    have "rename_node (index_of [0..<length ns']) (ns' ! i) = ns' ! i"
    proof (rule rename_node_same)
      fix c cs assume cs: "children (ns' ! i) = Some cs" and c: "c \<in> set cs"
      have "ns' ! i \<in> set ns'" using i by simp
      from node_graph_children[OF this cs] c
      have "c \<in> set (node_refs d')" using ns' by (auto simp: node_refs_def opt_list_def)
      then show "index_of [0..<length ns'] c = c" by (rule same)
    qed
    then show "map (\<lambda>old_idx. rename_node (index_of [0..<length ns']) (ns' ! old_idx))
        [0..<length ns'] ! i = ns' ! i" using i by simp
  qed simp
  have sc: "map_option (map (rename_scene (index_of [0..<length ns']))) (scenes d') = scenes d'"
  proof (rule map_option_same, rule map_idI, rule rename_scene_same)
    fix scs sc k assume "scenes d' = Some scs" "sc \<in> set scs" "k \<in> set (scene_refs sc)"
    then have "k \<in> set (node_refs d')" using scene_refs_in by blast
    then show "index_of [0..<length ns'] k = k" by (rule same)
  qed
  have sk: "map_option (map (rename_skin (index_of [0..<length ns']))) (skins d') = skins d'"
  proof (rule map_option_same, rule map_idI, rule rename_skin_same)
    fix sks sk k assume "skins d' = Some sks" "sk \<in> set sks" "k \<in> set (skin_refs sk)"
    then have "k \<in> set (node_refs d')" using skin_refs_in by blast
    then show "index_of [0..<length ns'] k = k" by (rule same)
  qed
  have an: "map_option (map (rename_animation (index_of [0..<length ns']))) (animations d')
      = animations d'"
  proof (rule map_option_same, rule map_idI, rule rename_animation_same)
    fix ans an k assume "animations d' = Some ans" "an \<in> set ans" "k \<in> set (animation_refs an)"
    then have "k \<in> set (node_refs d')" using animation_refs_in by blast
    then show "index_of [0..<length ns'] k = k" by (rule same)
  qed
  have "reordered_gltf d' = \<lparr>nodes = Some ns', scenes = scenes d', skins = skins d',
      animations = animations d'\<rparr>"
    unfolding reordered_gltf_def[of d'] Let_def
    by (simp only: ns' opt_list_def option.case srt n sc sk an)
  also have "\<dots> = d'" using ns' by (cases d') simp
  finally have "reordered_gltf d' = d'" .
  then show ?thesis by (simp add: d'_def)
qed

lemma sorted_nodes_roots:
  "filter (\<lambda>x. x \<notin> set (concat g)) (sorted_nodes g)
     = filter (\<lambda>x. x \<notin> set (concat g)) (dfs_order g (root_nodes g) {})"
proof -
  have "set (root_nodes g) \<subseteq> set (dfs_order g (root_nodes g) {})"
    using dfs_order_covers[of "root_nodes g" "{}" g] by simp
  then have "filter (\<lambda>x. x \<notin> set (concat g))
      (filter (\<lambda>i. i \<notin> set (dfs_order g (root_nodes g) {})) [0..<length g]) = []"
    by (auto simp: filter_empty_conv root_nodes_def simp del: set_concat)
  then show ?thesis by (simp add: sorted_nodes_def del: set_concat)
qed

text \<open>If the sort of a node list returns, the sort of the sorted list returns too.\<close>

lemma topological_sort_nodes_again:
  assumes rng: "set (concat (node_graph ns)) \<subseteq> {..<length (node_graph ns)}"
    and ret: "topological_sort_nodes allow ns = Inr r"
    and ns': "node_graph ns' = renamed_graph (sorted_nodes (node_graph ns)) (node_graph ns)"
  shows "\<exists>r'. topological_sort_nodes allow ns' = Inr r'"
proof -
  define g where "g = node_graph ns"
  define p where "p = sorted_nodes g"
  define R where "R = (\<lambda>x. x \<notin> set (concat g))"
  define d where "d = dfs_order g (root_nodes g) {}"
  have rng': "set (concat g) \<subseteq> {..<length g}" using rng by (simp add: g_def)
  have dp: "distinct p" unfolding p_def by (rule sorted_nodes_distinct)
  have sp: "set p = {..<length g}" unfolding p_def by (rule sorted_nodes_set[OF rng'])
  from ret obtain st where st: "dfs_children allow g (root_nodes g) ({}, []) = Inr st"
    by (cases "dfs_children allow g (root_nodes g) ({}, [])")
      (simp_all add: topological_sort_nodes_def g_def Let_def)
  have "dfs_children allow g (filter R (dfs_order g (root_nodes g) {})) ({}, []) = Inr st"
    by (rule dfs_children_restart[OF _ _ st]) (simp_all add: R_def root_nodes_def)
  then have again: "dfs_children allow g (filter R d) ({}, []) = Inr st" by (simp only: d_def)
  have "set (filter R d) \<subseteq> {..<length g}"
    using dfs_order_subset[of g "root_nodes g" "{}"] rng'
    by (auto simp: d_def root_nodes_def simp del: set_concat)
  from dfs_renamed_returns(2)[OF dp sp rng' refl this _ again]
  have "\<exists>st''. dfs_children allow (renamed_graph p g) (map (index_of p) (filter R d))
      (index_of p ` fst ({} :: nat set, [] :: nat list), []) = Inr st''"
    by simp
  then obtain st'' where st'': "dfs_children allow (renamed_graph p g)
      (map (index_of p) (filter R d)) ({}, []) = Inr st''" by auto
  have roots: "root_nodes (renamed_graph p g) = map (index_of p) (filter R d)"
    using root_nodes_renamed[OF dp sp rng'] sorted_nodes_roots[of g]
    by (simp only: R_def d_def p_def)
  have "dfs_children allow (node_graph ns') (root_nodes (node_graph ns')) ({}, []) = Inr st''"
    using st'' by (simp only: ns' roots g_def[symmetric] p_def[symmetric])
  then show ?thesis
    by (cases st'') (simp add: topological_sort_nodes_def Let_def)
qed

lemma fix_node_hierarchy_idem:
  assumes "fix_node_hierarchy allow s = Inr s'"
  shows "fix_node_hierarchy allow s' = Inr s'"
proof (cases "nodes (gltf_data s)")
  case None
  then show ?thesis using assms by (simp add: fix_node_hierarchy_def)
next
  case (Some ns)
  show ?thesis
  proof (cases "needs_reorder_nodes ns")
    case False
    then show ?thesis using assms Some by (simp add: fix_node_hierarchy_def)
  next
    case True
    have ok: "refs_in_range (gltf_data s)"
      by (rule fix_node_hierarchy_returns_in_range[OF Some True assms])
    from assms Some True obtain r where r: "topological_sort_nodes allow ns = Inr r"
      by (cases "topological_sort_nodes allow ns") (simp_all add: fix_node_hierarchy_def)
    have s': "s' = s\<lparr>gltf_data := reordered_gltf (gltf_data s), reordered := True\<rparr>"
      using fix_node_hierarchy_reorders_if[OF Some True ok r] assms by simp
    obtain ns' where ns': "nodes (gltf_data s') = Some ns'"
      using Some by (simp add: s' reordered_gltf_def Let_def)
    show ?thesis
    proof (cases "needs_reorder_nodes ns'")
      case False
      then show ?thesis using ns' by (simp add: fix_node_hierarchy_def)
    next
      case True
      have ok': "refs_in_range (gltf_data s')"
        using refs_in_range_reordered[OF Some ok] by (simp add: s')
      have rng: "set (concat (node_graph ns)) \<subseteq> {..<length (node_graph ns)}"
        using refs_in_range_children[OF ok Some] by simp
      have "node_graph ns' = renamed_graph (sorted_nodes (node_graph ns)) (node_graph ns)"
        using node_graph_reordered[OF Some ok] ns' by (simp add: s' opt_list_def)
      from topological_sort_nodes_again[OF rng r this]
      obtain r' where r': "topological_sort_nodes allow ns' = Inr r'" by blast
      have "fix_node_hierarchy allow s'
          = Inr (s'\<lparr>gltf_data := reordered_gltf (gltf_data s'), reordered := True\<rparr>)"
        by (rule fix_node_hierarchy_reorders_if[OF ns' True ok' r'])
      also have "reordered_gltf (gltf_data s') = gltf_data s'"
        using reordered_gltf_idem[OF Some ok] by (simp add: s')
      finally show ?thesis by (simp add: s')
    qed
  qed
qed

lemma needs_reorder_joints_Nil [simp]: "needs_reorder_joints [] ns = Inr False"
  by (simp add: needs_reorder_joints_def)

lemma topological_sort_joints_again:
  assumes "topological_sort_joints allow js ns = Inr out"
  shows "topological_sort_joints allow out ns = Inr out"
proof -
  let ?g = "joint_graph js ns"
  let ?R = "\<lambda>j. j \<notin> set (concat ?g)"
  let ?d = "dfs_order ?g (root_joints js ?g) {}"
  let ?l = "filter (\<lambda>j. j \<notin> set ?d) js"
  from topological_sort_joints_Inr[OF assms]
  have rng: "joints_in_range js ns" and out: "out = sorted_joints js ns" by simp_all
  have sj: "out = ?d @ ?l" by (simp add: out sorted_joints_def Let_def)
  have g': "joint_graph out ns = ?g"
    unfolding out by (rule joint_graph_cong) (rule sorted_joints_set)
  have rng': "joints_in_range out ns" using rng by (simp add: out joints_in_range_sorted)
  from assms rng obtain st where st: "dfs_children allow ?g (root_joints js ?g) ({}, []) = Inr st"
    by (cases "dfs_children allow ?g (root_joints js ?g) ({}, [])")
      (simp_all add: topological_sort_joints_unfold)
  have again: "dfs_children allow ?g (filter ?R ?d) ({}, []) = Inr st"
    by (rule dfs_children_restart[OF _ _ st]) (simp_all add: root_joints_def)
  have "set (root_joints js ?g) \<subseteq> set ?d"
    using dfs_order_covers[of "root_joints js ?g" "{}" ?g] by simp
  then have "filter ?R ?l = []" by (auto simp: filter_empty_conv root_joints_def)
  then have r': "root_joints out ?g = filter ?R ?d"
    by (simp add: root_joints_def sj)
  obtain vis reached where "st = (vis, reached)" by (cases st)
  then have "topological_sort_joints allow out ns = Inr (reached @ filter (\<lambda>j. j \<notin> vis) out)"
    using rng' again by (simp add: topological_sort_joints_unfold g' r')
  from topological_sort_joints_Inr[OF this] this show ?thesis
    by (simp add: out sorted_joints_idem)
qed

lemma fix_skin_cases:
  assumes "fix_skin allow ns sk = Inr (sk', b)"
  shows "(sk' = sk \<and> \<not> b \<and> needs_reorder_joints (opt_list (joints sk)) ns = Inr False)
    \<or> (\<exists>js. joints sk = Some js \<and> joints_in_range js ns \<and> b
          \<and> sk' = sk\<lparr>joints := Some (sorted_joints js ns)\<rparr>)"
proof (cases "joints sk")
  case None
  then show ?thesis using assms by (simp add: fix_skin_def opt_list_def)
next
  case (Some js)
  show ?thesis
  proof (cases "js = []")
    case True
    then show ?thesis using assms Some by (simp add: fix_skin_def opt_list_def)
  next
    case False
    from assms Some False obtain t where t: "needs_reorder_joints js ns = Inr t"
      by (cases "needs_reorder_joints js ns") (simp_all add: fix_skin_def)
    show ?thesis
    proof (cases t)
      case True
      then obtain out where o: "topological_sort_joints allow js ns = Inr out"
        and "sk' = sk\<lparr>joints := Some out\<rparr>" and b
        using assms Some False t
        by (cases "topological_sort_joints allow js ns") (simp_all add: fix_skin_def)
      then show ?thesis
        using Some topological_sort_joints_Inr[OF o] by auto
    next
      case False
      then show ?thesis
        using assms Some \<open>js \<noteq> []\<close> t by (simp add: fix_skin_def opt_list_def)
    qed
  qed
qed

lemma fix_skin_ordered:
  assumes "needs_reorder_joints (opt_list (joints sk)) ns = Inr False"
  shows "fix_skin allow ns sk = Inr (sk, False)"
  using assms by (cases "joints sk") (simp_all add: fix_skin_def opt_list_def)

lemma fix_skin_idem:
  assumes "fix_skin allow ns sk = Inr (sk', b)"
  shows "\<exists>b'. fix_skin allow ns sk' = Inr (sk', b') \<and> (b' \<longrightarrow> b)"
proof (cases "needs_reorder_joints (opt_list (joints sk)) ns = Inr False \<and> sk' = sk \<and> \<not> b")
  case True
  then show ?thesis using fix_skin_ordered[of sk ns allow] by (intro exI[of _ False]) simp
next
  case False
  with fix_skin_cases[OF assms] obtain js where js: "joints sk = Some js" and b: b
    and sk': "sk' = sk\<lparr>joints := Some (sorted_joints js ns)\<rparr>" by blast
  have "js \<noteq> []" using assms js False by (auto simp: fix_skin_def opt_list_def)
  from assms js this b obtain out0 where o: "topological_sort_joints allow js ns = Inr out0"
    by (cases "needs_reorder_joints js ns"; cases "topological_sort_joints allow js ns")
      (auto simp: fix_skin_def split: bool.splits if_splits)
  define out where "out = sorted_joints js ns"
  have out0: "out0 = out" using topological_sort_joints_Inr[OF o] by (simp add: out_def)
  have rng: "joints_in_range js ns" using topological_sort_joints_Inr[OF o] by simp
  have j': "joints sk' = Some out" by (simp add: sk' out_def)
  have rng': "joints_in_range out ns" using rng by (simp add: out_def joints_in_range_sorted)
  have ts: "topological_sort_joints allow out ns = Inr out"
    using topological_sort_joints_again[OF o] by (simp only: out0)
  from needs_reorder_joints_cases[of out ns] rng'
  obtain t where t: "needs_reorder_joints out ns = Inr t" by auto
  have same: "sk'\<lparr>joints := Some out\<rparr> = sk'" by (simp add: sk' out_def)
  have "fix_skin allow ns sk' = Inr (sk', out \<noteq> [] \<and> t)"
    using j' t ts same by (cases t) (simp_all add: fix_skin_def)
  then show ?thesis using b by simp
qed

lemma fix_bone_order_ordered:
  assumes "\<And>ns sks sk. nodes (gltf_data s) = Some ns \<Longrightarrow> skins (gltf_data s) = Some sks
      \<Longrightarrow> sk \<in> set sks \<Longrightarrow> needs_reorder_joints (opt_list (joints sk)) ns = Inr False"
  shows "fix_bone_order allow s = Inr s"
proof (cases "skins (gltf_data s)")
  case None
  then show ?thesis by (simp add: fix_bone_order_def)
next
  case sks: (Some sks)
  show ?thesis
  proof (cases "nodes (gltf_data s)")
    case None
    then show ?thesis using sks by (simp add: fix_bone_order_def)
  next
    case (Some ns)
    have "mapE (fix_skin allow ns) sks = Inr (map (\<lambda>sk. (sk, False)) sks)"
    proof (rule mapE_Inr[where h = "\<lambda>sk. (sk, False)"])
      fix sk assume "sk \<in> set sks"
      from assms[OF Some sks this] show "fix_skin allow ns sk = Inr (sk, False)"
        by (rule fix_skin_ordered)
    qed
    moreover have "s\<lparr>gltf_data := (gltf_data s)\<lparr>skins := Some sks\<rparr>, reordered := reordered s\<rparr> = s"
      using sks by simp
    ultimately show ?thesis
      using sks Some by (simp add: fix_bone_order_def comp_def list_ex_iff)
  qed
qed

lemma fix_bone_order_idem:
  assumes "fix_bone_order allow s = Inr s'"
  shows "fix_bone_order allow s' = Inr s'"
proof (cases "skins (gltf_data s)")
  case None
  then show ?thesis using assms by (simp add: fix_bone_order_def)
next
  case sks: (Some sks)
  show ?thesis
  proof (cases "nodes (gltf_data s)")
    case None
    then show ?thesis using assms sks by (simp add: fix_bone_order_def)
  next
    case (Some ns)
    from assms sks Some obtain rs where rs: "mapE (fix_skin allow ns) sks = Inr rs"
      and s': "s' = s\<lparr>gltf_data := (gltf_data s)\<lparr>skins := Some (map fst rs)\<rparr>,
                      reordered := (reordered s \<or> list_ex snd rs)\<rparr>"
      by (cases "mapE (fix_skin allow ns) sks") (simp_all add: fix_bone_order_def)
    define h where "h = (\<lambda>sk. projr (fix_skin allow ns sk))"
    have again: "fix_skin allow ns (fst r) = Inr (h (fst r)) \<and> fst (h (fst r)) = fst r
        \<and> (snd (h (fst r)) \<longrightarrow> snd r)" if "r \<in> set rs" for r
    proof -
      from rs that obtain sk where "fix_skin allow ns sk = Inr r"
        by (auto simp: mapE_Inr_iff list_all2_conv_all_nth in_set_conv_nth)
      then have "fix_skin allow ns sk = Inr (fst r, snd r)" by simp
      from fix_skin_idem[OF this] obtain b' where
        "fix_skin allow ns (fst r) = Inr (fst r, b')" "b' \<longrightarrow> snd r" by blast
      then show ?thesis by (simp add: h_def)
    qed
    have m: "mapE (fix_skin allow ns) (map fst rs) = Inr (map h (map fst rs))"
    proof (rule mapE_Inr[where h = h])
      fix sk assume "sk \<in> set (map fst rs)"
      then obtain r where "r \<in> set rs" "sk = fst r" by auto
      then show "fix_skin allow ns sk = Inr (h sk)" using again by simp
    qed
    have f: "map fst (map h (map fst rs)) = map fst rs"
      using again by (simp add: comp_def)
    have e: "list_ex snd (map h (map fst rs)) \<longrightarrow> list_ex snd rs"
      using again by (auto simp: list_ex_iff)
    have n': "nodes (gltf_data s') = Some ns" "skins (gltf_data s') = Some (map fst rs)"
      using Some by (simp_all add: s')
    have "fix_bone_order allow s'
        = Inr (s'\<lparr>gltf_data := (gltf_data s')\<lparr>skins := Some (map fst rs)\<rparr>,
                  reordered := (reordered s' \<or> list_ex snd (map h (map fst rs)))\<rparr>)"
      unfolding fix_bone_order_def n' option.case m sum.case f ..
    also have "(reordered s' \<or> list_ex snd (map h (map fst rs))) = reordered s'"
      using e by (auto simp: s')
    also have "s'\<lparr>gltf_data := (gltf_data s')\<lparr>skins := Some (map fst rs)\<rparr>,
                  reordered := reordered s'\<rparr> = s'"
      by (simp add: s')
    finally show ?thesis .
  qed
qed

text \<open>
  Claim C5. Both passes are idempotent. Whenever the node-order pass returns a document,
  the pass run on that document (with the same recursion allowance) returns it unchanged,
  and the same holds for the joint-order pass (the flag \<open>reordered\<close> included). On a document that is already in
  order the passes change nothing: if no child has a lower index than its parent, the
  node-order pass returns the document as it is, so every node keeps its place and every
  index its value; and if the reorder test fires for no skin, the joint-order pass returns
  the document as it is, every joints list included.
\<close>

theorem passes_idempotent:
  "(fix_node_hierarchy allow s = Inr s' \<longrightarrow> fix_node_hierarchy allow s' = Inr s')
   \<and> (fix_bone_order allow s = Inr s' \<longrightarrow> fix_bone_order allow s' = Inr s')
   \<and> ((\<forall>ns p c. nodes (gltf_data s) = Some ns \<and> (p, c) \<in> edges (node_graph ns) \<longrightarrow> p \<le> c)
        \<longrightarrow> fix_node_hierarchy allow s = Inr s)
   \<and> ((\<forall>ns sks sk. nodes (gltf_data s) = Some ns \<and> skins (gltf_data s) = Some sks
            \<and> sk \<in> set sks \<longrightarrow> needs_reorder_joints (opt_list (joints sk)) ns = Inr False)
        \<longrightarrow> fix_bone_order allow s = Inr s)"
proof (intro conjI impI)
  assume "fix_node_hierarchy allow s = Inr s'"
  then show "fix_node_hierarchy allow s' = Inr s'" by (rule fix_node_hierarchy_idem)
next
  assume "fix_bone_order allow s = Inr s'"
  then show "fix_bone_order allow s' = Inr s'" by (rule fix_bone_order_idem)
next
  assume a: "\<forall>ns p c. nodes (gltf_data s) = Some ns \<and> (p, c) \<in> edges (node_graph ns) \<longrightarrow> p \<le> c"
  show "fix_node_hierarchy allow s = Inr s"
  proof (rule fix_node_hierarchy_unchanged, cases "nodes (gltf_data s)")
    case None
    then show "nodes (gltf_data s) = None
        \<or> (\<exists>ns. nodes (gltf_data s) = Some ns \<and> \<not> needs_reorder_nodes ns)" by simp
  next
    case (Some ns)
    have "\<not> needs_reorder_nodes ns"
    proof
      assume "needs_reorder_nodes ns"
      then obtain p c where "(p, c) \<in> edges (node_graph ns)" "c < p"
        unfolding needs_reorder_nodes_iff by blast
      then show False using a Some by fastforce
    qed
    then show "nodes (gltf_data s) = None
        \<or> (\<exists>ns. nodes (gltf_data s) = Some ns \<and> \<not> needs_reorder_nodes ns)"
      using Some by simp
  qed
next
  assume "\<forall>ns sks sk. nodes (gltf_data s) = Some ns \<and> skins (gltf_data s) = Some sks
      \<and> sk \<in> set sks \<longrightarrow> needs_reorder_joints (opt_list (joints sk)) ns = Inr False"
  then show "fix_bone_order allow s = Inr s" by (intro fix_bone_order_ordered) blast
qed

lemma arm_reordered_joints: "fix_bone_order 100 arm_reordered = Inr arm_fixed"
  by (simp add: fix_bone_order_def arm_reordered_def arm_fixed_def fix_skin_def
      needs_reorder_joints_def joint_misplaced_def list_getitem_def enumerate_eq_zip
      topological_sort_joints_def joint_graph_def joint_children_of_def adj_def dfs_pos Let_def)

lemma arm_fixed_edges:
  "nodes (gltf_data arm_fixed) = Some ns \<and> (p, c) \<in> edges (node_graph ns) \<longrightarrow> p \<le> c"
  by (auto simp: arm_fixed_def edges_iff node_graph_def nth_Cons' split: if_splits)

lemma arm_fixed_joints:
  "nodes (gltf_data arm_fixed) = Some ns \<and> skins (gltf_data arm_fixed) = Some sks
     \<and> sk \<in> set sks \<longrightarrow> needs_reorder_joints (opt_list (joints sk)) ns = Inr False"
  by (auto simp: arm_fixed_def opt_list_def needs_reorder_joints_def joint_misplaced_def
      list_getitem_def enumerate_eq_zip)

theorem passes_idempotent_witness:
  "fix_node_hierarchy 100 arm_fixer = Inr arm_reordered
   \<and> fix_node_hierarchy 100 arm_reordered = Inr arm_reordered
   \<and> fix_bone_order 100 arm_reordered = Inr arm_fixed
   \<and> fix_bone_order 100 arm_fixed = Inr arm_fixed
   \<and> fix_node_hierarchy 100 arm_fixed = Inr arm_fixed"
proof -
  have 1: "fix_node_hierarchy 100 arm_fixer = Inr arm_reordered"
    using arm_fixer_result by (simp add: arm_reordered_def)
  have 2: "fix_node_hierarchy 100 arm_reordered = Inr arm_reordered"
    using passes_idempotent[of 100 arm_fixer arm_reordered] 1 by (simp only: simp_thms)
  have 3: "fix_bone_order 100 arm_reordered = Inr arm_fixed"
    by (rule arm_reordered_joints)
  have 4: "fix_bone_order 100 arm_fixed = Inr arm_fixed"
    using passes_idempotent[of 100 arm_reordered arm_fixed] 3 by (simp only: simp_thms)
  have e: "\<forall>ns p c. nodes (gltf_data arm_fixed) = Some ns \<and> (p, c) \<in> edges (node_graph ns)
      \<longrightarrow> p \<le> c"
    using arm_fixed_edges by blast
  have j: "\<forall>ns sks sk. nodes (gltf_data arm_fixed) = Some ns
      \<and> skins (gltf_data arm_fixed) = Some sks \<and> sk \<in> set sks
      \<longrightarrow> needs_reorder_joints (opt_list (joints sk)) ns = Inr False"
    using arm_fixed_joints by blast
  have 5: "fix_node_hierarchy 100 arm_fixed = Inr arm_fixed \<and> fix_bone_order 100 arm_fixed = Inr arm_fixed"
    using passes_idempotent[of 100 arm_fixed arm_fixed] e j by (simp only: simp_thms)
  show ?thesis using 1 2 3 4 5 by (simp only: simp_thms)
qed

lemma edges_renamed_graph:
  assumes d: "distinct p" and s: "set p = {..<length g}"
  shows "edges (renamed_graph p g) = map_prod (index_of p) (index_of p) ` edges g"
proof -
  have len: "length p = length g" using distinct_card[OF d] s by simp
  show ?thesis
  proof (rule set_eqI, clarify)
    fix a b
    show "(a, b) \<in> edges (renamed_graph p g)
        \<longleftrightarrow> (a, b) \<in> map_prod (index_of p) (index_of p) ` edges g"
    proof
      assume "(a, b) \<in> edges (renamed_graph p g)"
      then have "a < length (renamed_graph p g)" and ba: "b \<in> set (renamed_graph p g ! a)"
        by (simp_all only: edges_iff)
      then have a: "a < length p" by (simp add: renamed_graph_def)
      have b: "b \<in> index_of p ` set (g ! (p ! a))"
        using ba a by (simp add: renamed_graph_def)
      from b obtain y where y: "y \<in> set (g ! (p ! a))" "b = index_of p y" by blast
      have "p ! a < length g" using a s nth_mem[OF a] by auto
      then have "(p ! a, y) \<in> edges g" using y(1) by (simp add: edges_iff)
      moreover have "index_of p (p ! a) = a" using d a by (rule index_of_nth)
      ultimately show "(a, b) \<in> map_prod (index_of p) (index_of p) ` edges g"
        using y(2) by (metis map_prod_imageI)
    next
      assume "(a, b) \<in> map_prod (index_of p) (index_of p) ` edges g"
      then obtain x y where xy: "(x, y) \<in> edges g" "a = index_of p x" "b = index_of p y"
        by auto
      then have x: "x < length g" "y \<in> set (g ! x)" by (simp_all add: edges_iff)
      then have xp: "x \<in> set p" using s by simp
      have "index_of p x < length p" using xp by (rule index_of_less)
      moreover have "p ! index_of p x = x" using xp by (rule nth_index_of)
      ultimately show "(a, b) \<in> edges (renamed_graph p g)"
        using x(2) xy(2,3) by (simp add: edges_iff renamed_graph_def)
    qed
  qed
qed

lemma trancl_map_prod:
  "(x, y) \<in> r\<^sup>+ \<Longrightarrow> (f x, f y) \<in> (map_prod f f ` r)\<^sup>+"
proof (induction rule: trancl_induct)
  case (base y)
  then have "(f x, f y) \<in> map_prod f f ` r" by (metis map_prod_imageI)
  then show ?case by (rule r_into_trancl)
next
  case (step y z)
  then have "(f y, f z) \<in> map_prod f f ` r" by (metis map_prod_imageI)
  with step.IH show ?case by (rule trancl_into_trancl)
qed

lemma cycle_has_low_child:
  assumes "\<not> acyclic r"
  shows "\<exists>p c. (p, c) \<in> r \<and> c \<le> (p :: nat)"
proof (rule ccontr)
  assume "\<not> (\<exists>p c. (p, c) \<in> r \<and> c \<le> p)"
  then have "r \<subseteq> measure (\<lambda>x. x)" by (auto simp: not_le)
  then have "wf r" by (rule wf_subset[OF wf_measure])
  then have "acyclic r" by (rule wf_acyclic)
  then show False using assms by simp
qed

text \<open>
  Claim C6. A cycle among the children does not stop the node-order pass and is not
  repaired by it. For a document whose node indices all point into the node list, whose
  children graph has a cycle, and whose chains of distinct nodes are shorter than the
  recursion allowance, the pass returns a document with as many nodes. Its edges are the
  old edges renamed by one bijection on the indices, the edges of the cycle like all
  others, so the new node list has a cycle again, and with it an edge whose child does not
  stand after its parent. The flag \<open>reordered\<close> is set exactly when some child had a
  lower index than its parent.
\<close>

theorem node_pass_returns_on_cycle:
  assumes ns: "nodes (gltf_data s) = Some ns" and ok: "refs_in_range (gltf_data s)"
    and cyc: "\<not> acyclic (edges (node_graph ns))"
    and depth: "chains_below allow (node_graph ns)"
  shows "\<exists>s' ns' f.
      fix_node_hierarchy allow s = Inr s' \<and> nodes (gltf_data s') = Some ns'
    \<and> length ns' = length ns
    \<and> bij_betw f {..<length ns} {..<length ns}
    \<and> edges (node_graph ns') = map_prod f f ` edges (node_graph ns)
    \<and> \<not> acyclic (edges (node_graph ns'))
    \<and> (\<exists>p c. (p, c) \<in> edges (node_graph ns') \<and> c \<le> p)
    \<and> reordered s' = (reordered s \<or> (\<exists>p c. (p, c) \<in> edges (node_graph ns) \<and> c < p))"
proof (cases "needs_reorder_nodes ns")
  case False
  have 1: "fix_node_hierarchy allow s = Inr s" using ns False by (simp add: fix_node_hierarchy_def)
  have 2: "bij_betw (\<lambda>i. i) {..<length ns} {..<length ns}" by (simp add: bij_betw_def)
  have 3: "edges (node_graph ns) = map_prod (\<lambda>i. i) (\<lambda>i. i) ` edges (node_graph ns)"
    by (simp add: map_prod_def)
  have "\<not> (\<exists>p c. (p, c) \<in> edges (node_graph ns) \<and> c < p)"
    unfolding needs_reorder_nodes_iff[symmetric] by (rule False)
  then have 4: "reordered s = (reordered s \<or> (\<exists>p c. (p, c) \<in> edges (node_graph ns) \<and> c < p))"
    by (simp only: simp_thms)
  show ?thesis
    by (intro exI[of _ s] exI[of _ ns] exI[of _ "\<lambda>i. i"] conjI 1 ns refl 2 3 cyc
        cycle_has_low_child[OF cyc] 4)
next
  case True
  define g where "g = node_graph ns"
  define p where "p = sorted_nodes g"
  define s' where "s' = s\<lparr>gltf_data := reordered_gltf (gltf_data s), reordered := True\<rparr>"
  define ns' where "ns' = map (\<lambda>old_idx. rename_node (index_of p) (ns ! old_idx)) p"
  have rng: "set (concat g) \<subseteq> {..<length g}"
    using refs_in_range_children[OF ok ns] by (simp add: g_def)
  have len: "length g = length ns" by (simp add: g_def)
  have 1: "fix_node_hierarchy allow s = Inr s'"
    unfolding s'_def by (rule fix_node_hierarchy_reorders[OF ns True ok depth])
  have 2: "nodes (gltf_data s') = Some ns'"
    using nodes_reordered_gltf[OF ns] by (simp add: s'_def ns'_def p_def g_def)
  have 3: "length ns' = length ns"
    using sorted_nodes_length[OF rng] by (simp add: ns'_def p_def g_def)
  have b: "bij_betw (index_of p) {..<length ns} {..<length ns}"
    using index_of_bij[OF sorted_nodes_distinct sorted_nodes_set[OF rng]]
    by (simp only: p_def len)
  have "node_graph ns' = renamed_graph p g"
    using node_graph_reordered[OF ns ok] 2 by (simp add: s'_def opt_list_def p_def g_def)
  then have e: "edges (node_graph ns') = map_prod (index_of p) (index_of p) ` edges (node_graph ns)"
    using edges_renamed_graph[OF sorted_nodes_distinct sorted_nodes_set[OF rng]]
    by (simp add: p_def g_def)
  from cyc obtain x where "(x, x) \<in> (edges (node_graph ns))\<^sup>+" by (auto simp: acyclic_def)
  then have "(index_of p x, index_of p x) \<in> (edges (node_graph ns'))\<^sup>+"
    unfolding e by (rule trancl_map_prod)
  then have 4: "\<not> acyclic (edges (node_graph ns'))" by (auto simp: acyclic_def)
  have 5: "\<exists>p c. (p, c) \<in> edges (node_graph ns') \<and> c \<le> p"
    by (rule cycle_has_low_child[OF 4])
  have "\<exists>p c. (p, c) \<in> edges (node_graph ns) \<and> c < p"
    unfolding needs_reorder_nodes_iff[symmetric] by (rule True)
  then have 6: "reordered s' = (reordered s \<or> (\<exists>p c. (p, c) \<in> edges (node_graph ns) \<and> c < p))"
    by (simp add: s'_def)
  show ?thesis
    by (intro exI[of _ s'] exI[of _ ns'] exI[of _ "index_of p"] conjI 1 2 3 b e 4 5 6)
qed

lemma cyclic_nodes_cycle: "\<not> acyclic (edges (node_graph cyclic_nodes))"
proof -
  have "(0, 2) \<in> edges (node_graph cyclic_nodes)" "(2, 0) \<in> edges (node_graph cyclic_nodes)"
    by (simp_all add: edges_iff node_graph_def cyclic_nodes_def)
  then have "(0, 0) \<in> (edges (node_graph cyclic_nodes))\<^sup>+"
    by (meson r_into_trancl trancl_trans)
  then show ?thesis unfolding acyclic_def by blast
qed

theorem node_pass_returns_on_cycle_witness:
  "fix_node_hierarchy 100 cyclic_fixer
     = Inr \<lparr>gltf_data =
              \<lparr>nodes = Some [\<lparr>children = None, other_fields = ''b''\<rparr>,
                             \<lparr>children = Some [2], other_fields = ''a''\<rparr>,
                             \<lparr>children = Some [1], other_fields = ''c''\<rparr>],
               scenes = Some [\<lparr>scene_nodes = Some [0]\<rparr>], skins = None, animations = None\<rparr>,
            reordered = True\<rparr>
   \<and> (\<exists>s' ns' f.
      fix_node_hierarchy 100 cyclic_fixer = Inr s' \<and> nodes (gltf_data s') = Some ns'
    \<and> length ns' = length cyclic_nodes
    \<and> bij_betw f {..<length cyclic_nodes} {..<length cyclic_nodes}
    \<and> edges (node_graph ns') = map_prod f f ` edges (node_graph cyclic_nodes)
    \<and> \<not> acyclic (edges (node_graph ns'))
    \<and> (\<exists>p c. (p, c) \<in> edges (node_graph ns') \<and> c \<le> p)
    \<and> reordered s'
        = (reordered cyclic_fixer \<or> (\<exists>p c. (p, c) \<in> edges (node_graph cyclic_nodes) \<and> c < p)))"
proof -
  have 1: "nodes (gltf_data cyclic_fixer) = Some cyclic_nodes"
    by (simp add: cyclic_fixer_def)
  show ?thesis
    by (intro conjI cyclic_fixer_result
        node_pass_returns_on_cycle[OF 1 cyclic_refs cyclic_nodes_cycle cyclic_depth])
qed

text \<open>
  The spec's scenario. The pass returns; what it leaves is the document and the flag, the
  fixer has no list of issues. Nodes 0 and 2, the two on the cycle, are moved behind node 1
  and are each other's child as before; the log has three warnings, none names the edge
  from node 2 back to node 0 as failed; the whole \<open>fix\<close> ends with the flag set, which
  it reports as success.
\<close>

theorem node_pass_cycle_counterexample:
  "fix_node_hierarchy 100 cyclic_fixer
     = Inr \<lparr>gltf_data =
              \<lparr>nodes = Some [\<lparr>children = None, other_fields = ''b''\<rparr>,
                             \<lparr>children = Some [2], other_fields = ''a''\<rparr>,
                             \<lparr>children = Some [1], other_fields = ''c''\<rparr>],
               scenes = Some [\<lparr>scene_nodes = Some [0]\<rparr>], skins = None, animations = None\<rparr>,
            reordered = True\<rparr>
   \<and> node_pass_warnings 100 cyclic_nodes
       = Inr [Child_lower_index 2 0, Not_connected 0, Not_connected 2]
   \<and> fix_passes 100 cyclic_fixer
     = Inr \<lparr>gltf_data =
              \<lparr>nodes = Some [\<lparr>children = None, other_fields = ''b''\<rparr>,
                             \<lparr>children = Some [2], other_fields = ''a''\<rparr>,
                             \<lparr>children = Some [1], other_fields = ''c''\<rparr>],
               scenes = Some [\<lparr>scene_nodes = Some [0]\<rparr>], skins = None, animations = None\<rparr>,
            reordered = True\<rparr>"
proof -
  have w: "node_pass_warnings 100 cyclic_nodes
       = Inr [Child_lower_index 2 0, Not_connected 0, Not_connected 2]"
    by (simp add: node_pass_warnings_def needs_reorder_nodes_def cyclic_nodes_def node_graph_def
        root_nodes_def adj_def enumerate_eq_zip dfs_pos Let_def)
  show ?thesis
    by (simp add: w cyclic_fixer_result fix_passes_def fix_bone_order_def)
qed

section \<open>Loops over a state\<close>

lemma foldE_append:
  "foldE f (xs @ ys) s = (case foldE f xs s of Inl e \<Rightarrow> Inl e | Inr s1 \<Rightarrow> foldE f ys s1)"
  by (induction xs arbitrary: s) (auto split: sum.splits)

lemma foldE_invariant:
  assumes "foldE f xs s = Inr s'" and "P s"
    and "\<And>x t t'. x \<in> set xs \<Longrightarrow> P t \<Longrightarrow> f x t = Inr t' \<Longrightarrow> P t'"
  shows "P s'"
  using assms
proof (induction xs arbitrary: s)
  case Nil
  then show ?case by simp
next
  case (Cons x xs)
  from Cons.prems(1) obtain s1 where 1: "f x s = Inr s1" and 2: "foldE f xs s1 = Inr s'"
    by (cases "f x s") simp_all
  have ps1: "P s1" using Cons.prems(3)[OF _ Cons.prems(2) 1] by simp
  show ?case
  proof (rule Cons.IH[OF 2 ps1])
    fix y t t' assume "y \<in> set xs" "P t" "f y t = Inr t'"
    then show "P t'" using Cons.prems(3)[of y t t'] by simp
  qed
qed

lemma foldE_returns:
  assumes "P s"
    and "\<And>x t. x \<in> set xs \<Longrightarrow> P t \<Longrightarrow> \<exists>t'. f x t = Inr t' \<and> P t'"
  shows "\<exists>s'. foldE f xs s = Inr s' \<and> P s'"
  using assms
proof (induction xs arbitrary: s)
  case Nil
  then show ?case by simp
next
  case (Cons x xs)
  from Cons.prems(2)[of x s] Cons.prems(1) obtain s1 where 1: "f x s = Inr s1" and p: "P s1"
    by auto
  from Cons.IH[OF p] Cons.prems(2) obtain s' where "foldE f xs s1 = Inr s'" "P s'"
    by (metis list.set_intros(2))
  then show ?case using 1 by simp
qed

section \<open>Comparisons and the builtins \<open>min\<close> and \<open>max\<close>\<close>

lemma fless_Fin_iff: "fless (Fin a) v \<longleftrightarrow> (\<exists>b. v = Fin b \<and> a < b) \<or> v = PInf"
  by (cases v) simp_all











section \<open>The pass over the accessors\<close>

lemma read_columns:
  "mapE (\<lambda>comp. read_floats (Some buf) (map (h comp) is)) cs
     = Inr (map (\<lambda>comp. map (unpack_from_f buf)
               (filter (\<lambda>offset. offset + 4 \<le> length buf) (map (h comp) is))) cs)"
  by (rule mapE_Inr) (simp add: read_floats_def)

lemma fix_accessor_suspect:
  assumes bin: "bin_data s = Some buf"
    and acc: "get_list (accessors (doc s)) ! idx = acc"
    and sus: "spatial_suspect (doc s) acc"
  shows "fix_accessor idx s =
     (let cols = spatial_columns buf (doc s) acc in
      if is_extreme (recomputed_min cols @ recomputed_max cols)
      then Inr (s\<lparr>issues_found := issues_found s
              @ [Extreme_values idx (acc_type acc) (recomputed_min cols) (recomputed_max cols)]\<rparr>)
      else Inr (s\<lparr>doc := set_bounds idx (recomputed_min cols) (recomputed_max cols) (doc s),
                  fixes_applied := fixes_applied s
                    @ [Fixed_bounds idx (get_list (acc_min acc)) (recomputed_min cols)]\<rparr>))"
proof -
  from sus obtain b where b: "bufferView acc = Some b" "b < length (get_list (bufferViews (doc s)))"
    by (cases "bufferView acc") (simp_all add: spatial_suspect_def)
  show ?thesis
    using sus b
    unfolding fix_accessor_def acc bin spatial_suspect_def Let_def read_columns
    by (simp add: spatial_columns_def accessor_offset_def recomputed_min_def recomputed_max_def)
qed

lemma fix_accessor_other:
  assumes "get_list (accessors (doc s)) ! idx = acc" and "\<not> spatial_suspect (doc s) acc"
  shows "fix_accessor idx s = Inr s"
  using assms unfolding fix_accessor_def spatial_suspect_def Let_def
  by (auto split: option.splits)

text \<open>What one round can change.\<close>

lemma fix_accessor_shape:
  assumes "bin_data s = Some buf"
  shows "fix_accessor idx s = Inr s
    \<or> (\<exists>t mn mx. fix_accessor idx s
          = Inr (s\<lparr>issues_found := issues_found s @ [Extreme_values idx t mn mx]\<rparr>))
    \<or> (\<exists>mn mx old. fix_accessor idx s
          = Inr (s\<lparr>doc := set_bounds idx mn mx (doc s),
                   fixes_applied := fixes_applied s @ [Fixed_bounds idx old mn]\<rparr>))"
proof (cases "spatial_suspect (doc s) (get_list (accessors (doc s)) ! idx)")
  case True
  let ?cols = "spatial_columns buf (doc s) (get_list (accessors (doc s)) ! idx)"
  show ?thesis
  proof (cases "is_extreme (recomputed_min ?cols @ recomputed_max ?cols)")
    case e: True
    from fix_accessor_suspect[OF assms refl True] e
    have "fix_accessor idx s = Inr (s\<lparr>issues_found := issues_found s
        @ [Extreme_values idx (acc_type (get_list (accessors (doc s)) ! idx))
             (recomputed_min ?cols) (recomputed_max ?cols)]\<rparr>)"
      by (simp add: Let_def)
    then have "\<exists>t mn mx. fix_accessor idx s
          = Inr (s\<lparr>issues_found := issues_found s @ [Extreme_values idx t mn mx]\<rparr>)"
      by (intro exI)
    then show ?thesis by (rule disjI2[OF disjI1])
  next
    case e: False
    from fix_accessor_suspect[OF assms refl True] e
    have "fix_accessor idx s
        = Inr (s\<lparr>doc := set_bounds idx (recomputed_min ?cols) (recomputed_max ?cols) (doc s),
                 fixes_applied := fixes_applied s
                   @ [Fixed_bounds idx (get_list (acc_min (get_list (accessors (doc s)) ! idx)))
                        (recomputed_min ?cols)]\<rparr>)"
      by (simp add: Let_def)
    then have "\<exists>mn mx old. fix_accessor idx s
          = Inr (s\<lparr>doc := set_bounds idx mn mx (doc s),
                   fixes_applied := fixes_applied s @ [Fixed_bounds idx old mn]\<rparr>)"
      by (intro exI)
    then show ?thesis by (rule disjI2[OF disjI2])
  qed
next
  case False
  from fix_accessor_other[OF refl False] show ?thesis by simp
qed

lemma set_bounds_simps [simp]:
  "bufferViews (set_bounds idx mn mx d) = bufferViews d"
  "length (get_list (accessors (set_bounds idx mn mx d))) = length (get_list (accessors d))"
  "j \<noteq> idx \<Longrightarrow> get_list (accessors (set_bounds idx mn mx d)) ! j = get_list (accessors d) ! j"
  "idx < length (get_list (accessors d)) \<Longrightarrow>
     get_list (accessors (set_bounds idx mn mx d)) ! idx
       = (get_list (accessors d) ! idx)\<lparr>acc_min := Some mn, acc_max := Some mx\<rparr>"
  by (simp_all add: set_bounds_def get_list_def)

lemma kept_refl: "kept s idx s"
  by (simp add: kept_def)

lemma kept_trans: "kept s idx t \<Longrightarrow> kept t idx u \<Longrightarrow> kept s idx u"
  unfolding kept_def by (intro conjI) (simp, simp, simp, simp, blast, blast, blast)

lemma fix_accessor_kept:
  assumes "bin_data s = Some buf" and "k \<noteq> idx"
  shows "\<exists>t. fix_accessor k s = Inr t \<and> kept s idx t"
  using fix_accessor_shape[OF assms(1), of k] assms(2)
  by (elim disjE exE) (auto simp: kept_def)

lemma fix_accessors_kept:
  assumes "bin_data s = Some buf" and "idx \<notin> set ks"
  shows "\<exists>t. foldE fix_accessor ks s = Inr t \<and> kept s idx t"
proof -
  have "\<exists>t. foldE fix_accessor ks s = Inr t \<and> (bin_data t = Some buf \<and> kept s idx t)"
  proof (rule foldE_returns)
    show "bin_data s = Some buf \<and> kept s idx s" using assms(1) by (simp add: kept_refl)
  next
    fix x t assume x: "x \<in> set ks" and t: "bin_data t = Some buf \<and> kept s idx t"
    then have "x \<noteq> idx" using assms(2) by auto
    from fix_accessor_kept[OF _ this, of t buf] t
    obtain t' where t': "fix_accessor x t = Inr t'" "kept t idx t'" by blast
    then have "bin_data t' = Some buf" using t by (simp add: kept_def)
    then show "\<exists>t'. fix_accessor x t = Inr t' \<and> (bin_data t' = Some buf \<and> kept s idx t')"
      using t' t kept_trans by blast
  qed
  then show ?thesis by blast
qed

text \<open>The pass: the rounds before \<open>idx\<close>, the round for \<open>idx\<close>, the rounds after it.\<close>

lemma fix_extreme_coordinates_split:
  assumes bin: "bin_data s = Some buf" and idx: "idx < length (get_list (accessors (doc s)))"
  shows "\<exists>s1 s2 s'. kept s idx s1 \<and> fix_accessor idx s1 = Inr s2 \<and> kept s2 idx s'
      \<and> fix_extreme_coordinates s = Inr s'"
proof -
  let ?n = "length (get_list (accessors (doc s)))"
  have upt: "[0..<?n] = [0..<idx] @ idx # [Suc idx..<?n]"
    using idx by (metis le0 le_add_diff_inverse less_imp_le_nat upt_add_eq_append upt_conv_Cons
        add_diff_cancel_left')
  from fix_accessors_kept[OF bin, of idx "[0..<idx]"]
  obtain s1 where 1: "foldE fix_accessor [0..<idx] s = Inr s1" and k1: "kept s idx s1" by auto
  have bin1: "bin_data s1 = Some buf" using k1 bin by (simp add: kept_def)
  from fix_accessor_shape[OF bin1, of idx]
  obtain s2 where 2: "fix_accessor idx s1 = Inr s2" by blast
  have bin2: "bin_data s2 = Some buf"
    using fix_accessor_shape[OF bin1, of idx] 2 bin1 by auto
  from fix_accessors_kept[OF bin2, of idx "[Suc idx..<?n]"]
  obtain s' where 3: "foldE fix_accessor [Suc idx..<?n] s2 = Inr s'" and k3: "kept s2 idx s'"
    by auto
  have "fix_extreme_coordinates s = Inr s'"
    unfolding fix_extreme_coordinates_def upt foldE_append using 1 2 3 by simp
  then show ?thesis using k1 2 k3 by blast
qed

lemma spatial_suspectI:
  assumes "componentType acc = Some 5126"
    and "get_list (acc_min acc) \<noteq> []" and "get_list (acc_max acc) \<noteq> []"
    and "is_extreme (get_list (acc_min acc) @ get_list (acc_max acc))"
    and "bufferView acc = Some b" and "b < length (get_list (bufferViews d))"
  shows "spatial_suspect d acc"
  using assms by (simp add: spatial_suspect_def)

lemma kept_suspect:
  assumes "kept s idx t"
  shows "spatial_suspect (doc t) acc = spatial_suspect (doc s) acc"
    and "spatial_columns buf (doc t) acc = spatial_columns buf (doc s) acc"
proof -
  have bv: "bufferViews (doc t) = bufferViews (doc s)" using assms by (simp add: kept_def)
  show "spatial_suspect (doc t) acc = spatial_suspect (doc s) acc"
    by (simp only: spatial_suspect_def bv)
  show "spatial_columns buf (doc t) acc = spatial_columns buf (doc s) acc"
    by (simp only: spatial_columns_def accessor_offset_def bv)
qed

text \<open>
  Claim C9. Take a loaded buffer and an accessor of floats with a minimum and a maximum
  list, of which some component is extreme, and with a buffer view that exists. If the
  bounds that the pass recomputes from the buffer are extreme again, then the pass
  over the accessors returns, leaves this accessor and the buffer as they are, records
  the accessor with the recomputed bounds as an issue, and records no fix for it.
\<close>

theorem spatial_corrupted_data_is_reported:
  assumes bin: "bin_data s = Some buf"
    and idx: "idx < length (get_list (accessors (doc s)))"
    and acc: "get_list (accessors (doc s)) ! idx = acc"
    and float: "componentType acc = Some 5126"
    and bounds: "get_list (acc_min acc) \<noteq> []" "get_list (acc_max acc) \<noteq> []"
      "is_extreme (get_list (acc_min acc) @ get_list (acc_max acc))"
    and view: "bufferView acc = Some b" "b < length (get_list (bufferViews (doc s)))"
    and raw: "is_extreme (recomputed_min (spatial_columns buf (doc s) acc)
                @ recomputed_max (spatial_columns buf (doc s) acc))"
  shows "\<exists>s'. fix_extreme_coordinates s = Inr s'
    \<and> get_list (accessors (doc s')) ! idx = acc
    \<and> bin_data s' = Some buf
    \<and> Extreme_values idx (acc_type acc) (recomputed_min (spatial_columns buf (doc s) acc))
         (recomputed_max (spatial_columns buf (doc s) acc)) \<in> set (issues_found s')
    \<and> (\<forall>old mn. Fixed_bounds idx old mn \<in> set (fixes_applied s')
          \<longrightarrow> Fixed_bounds idx old mn \<in> set (fixes_applied s))"
proof -
  let ?cols = "spatial_columns buf (doc s) acc"
  let ?issue = "Extreme_values idx (acc_type acc) (recomputed_min ?cols) (recomputed_max ?cols)"
  have sus: "spatial_suspect (doc s) acc"
    by (rule spatial_suspectI[OF float bounds view])
  from fix_extreme_coordinates_split[OF bin idx]
  obtain s1 s2 s' where k1: "kept s idx s1" and 2: "fix_accessor idx s1 = Inr s2"
    and k3: "kept s2 idx s'" and r: "fix_extreme_coordinates s = Inr s'" by blast
  have bin1: "bin_data s1 = Some buf" and acc1: "get_list (accessors (doc s1)) ! idx = acc"
    using k1 bin acc by (simp_all add: kept_def)
  have sus1: "spatial_suspect (doc s1) acc" using sus kept_suspect(1)[OF k1] by simp
  have cols1: "spatial_columns buf (doc s1) acc = ?cols" by (rule kept_suspect(2)[OF k1])
  have s2: "s2 = s1\<lparr>issues_found := issues_found s1 @ [?issue]\<rparr>"
    using fix_accessor_suspect[OF bin1 acc1 sus1] raw 2 by (simp add: cols1 Let_def)
  have a: "get_list (accessors (doc s')) ! idx = acc"
    using k3 acc1 by (simp add: kept_def s2)
  have b: "bin_data s' = Some buf" using k3 bin1 by (simp add: kept_def s2)
  have "?issue \<in> set (issues_found s2)" by (simp add: s2)
  then have c: "?issue \<in> set (issues_found s')" using k3 by (auto simp: kept_def)
  have d: "\<forall>old mn. Fixed_bounds idx old mn \<in> set (fixes_applied s')
          \<longrightarrow> Fixed_bounds idx old mn \<in> set (fixes_applied s)"
    using k1 k3 by (simp add: kept_def s2)
  show ?thesis by (intro exI[of _ s'] conjI r a b c d)
qed

lemma unpack_nan: "unpack_from_f [0, 0, 0xC0, 0x7F] 0 = NaN"
  by (simp add: unpack_from_f_def le_bytes_to_int_def f32_of_bits_def)

lemma nan_columns:
  "spatial_columns [0, 0, 0xC0, 0x7F] (nan_document nan_accessor) nan_accessor = [[NaN]]"
  by (simp add: spatial_columns_def accessor_offset_def nan_document_def nan_accessor_def
      type_sizes_def get_nat_def get_list_def unpack_nan)

theorem spatial_corrupted_data_is_reported_witness:
  "\<exists>s'. fix_extreme_coordinates (nan_fixer nan_accessor) = Inr s'
     \<and> get_list (accessors (doc s')) ! 0 = nan_accessor
     \<and> bin_data s' = Some [0, 0, 0xC0, 0x7F]
     \<and> Extreme_values 0 (Some ''SCALAR'') [NaN] [NaN] \<in> set (issues_found s')
     \<and> (\<forall>old mn. Fixed_bounds 0 old mn \<notin> set (fixes_applied s'))"
proof -
  let ?s = "nan_fixer nan_accessor"
  have bin: "bin_data ?s = Some [0, 0, 0xC0, 0x7F]" by (simp add: nan_fixer_def)
  have d: "doc ?s = nan_document nan_accessor" by (simp add: nan_fixer_def)
  have idx: "0 < length (get_list (accessors (doc ?s)))"
    by (simp add: d nan_document_def get_list_def)
  have acc: "get_list (accessors (doc ?s)) ! 0 = nan_accessor"
    by (simp add: d nan_document_def get_list_def)
  have float: "componentType nan_accessor = Some 5126" by (simp add: nan_accessor_def)
  have b1: "get_list (acc_min nan_accessor) \<noteq> []" by (simp add: nan_accessor_def get_list_def)
  have b2: "get_list (acc_max nan_accessor) \<noteq> []" by (simp add: nan_accessor_def get_list_def)
  have b3: "is_extreme (get_list (acc_min nan_accessor) @ get_list (acc_max nan_accessor))"
    by (simp add: nan_accessor_def get_list_def is_extreme_def)
  have v1: "bufferView nan_accessor = Some 0" by (simp add: nan_accessor_def)
  have v2: "0 < length (get_list (bufferViews (doc ?s)))"
    by (simp add: d nan_document_def get_list_def)
  have rec: "recomputed_min [[NaN]] = [NaN]" "recomputed_max [[NaN]] = [NaN]"
    by (simp_all add: recomputed_min_def recomputed_max_def py_min_def py_max_def)
  have raw: "is_extreme (recomputed_min (spatial_columns [0, 0, 0xC0, 0x7F] (doc ?s) nan_accessor)
       @ recomputed_max (spatial_columns [0, 0, 0xC0, 0x7F] (doc ?s) nan_accessor))"
    unfolding d nan_columns rec by (simp add: is_extreme_def isnan_def)
  have t: "acc_type nan_accessor = Some ''SCALAR''" by (simp add: nan_accessor_def)
  have f: "fixes_applied ?s = []" by (simp add: nan_fixer_def)
  show ?thesis
    using spatial_corrupted_data_is_reported[OF bin idx acc float b1 b2 b3 v1 v2 raw]
    unfolding d nan_columns rec t f by simp
qed

text \<open>
  The same accessor without a maximum: the stored minimum is extreme and the data is a
  NaN, and the session returns with nothing changed and nothing recorded.
\<close>

theorem spatial_without_maximum_counterexample:
  "is_extreme (get_list (acc_min (nan_accessor\<lparr>acc_max := None\<rparr>)))
   \<and> unpack_from_f [0, 0, 0xC0, 0x7F] 0 = NaN
   \<and> fix_extreme_coordinates (nan_fixer (nan_accessor\<lparr>acc_max := None\<rparr>))
       = Inr (nan_fixer (nan_accessor\<lparr>acc_max := None\<rparr>))
   \<and> fix_all (nan_fixer (nan_accessor\<lparr>acc_max := None\<rparr>))
       = Inr (nan_fixer (nan_accessor\<lparr>acc_max := None\<rparr>), True)
   \<and> issues_found (nan_fixer (nan_accessor\<lparr>acc_max := None\<rparr>)) = []"
proof -
  let ?s = "nan_fixer (nan_accessor\<lparr>acc_max := None\<rparr>)"
  have 1: "is_extreme (get_list (acc_min (nan_accessor\<lparr>acc_max := None\<rparr>)))"
    by (simp add: nan_accessor_def get_list_def is_extreme_def)
  have 2: "fix_extreme_coordinates ?s = Inr ?s"
    by (simp add: fix_extreme_coordinates_def nan_fixer_def nan_document_def get_list_def
        fix_accessor_def nan_accessor_def)
  have 3: "fix_animation_timing ?s = Inr ?s"
    by (simp add: fix_animation_timing_def nan_fixer_def nan_document_def get_list_def)
  have 4: "validate_structure ?s = ?s"
    by (simp add: validate_structure_def nan_fixer_def nan_document_def get_list_def
        nan_accessor_def)
  have 5: "issues_found ?s = []" by (simp add: nan_fixer_def)
  have 6: "fix_all ?s = Inr (?s, True)"
    unfolding fix_all_def 3 2 sum.case Let_def 4 5 by simp
  show ?thesis using 1 unpack_nan 2 6 5 by simp
qed

section \<open>Bounds recomputed from plausible data\<close>




















section \<open>Regenerated timestamps\<close>


lemma length_int_to_le_bytes [simp]: "length (int_to_le_bytes k w) = k"
  by (simp add: int_to_le_bytes_def)















end
